theory Spec2Isabelle
  imports Main "HOL-Library.Word" "HOL-Library.Sublist"
begin

section \<open>Strings of UTF-16 code units\<close>

text \<open>
  A TypeScript string is a sequence of 16-bit code units. The operations below are the
  ones \<^verbatim>\<open>parseAnkiCards\<close> and \<^verbatim>\<open>addNotesToAnki\<close> of \<^verbatim>\<open>src/main.ts\<close> call on strings:
  \<^verbatim>\<open>trim\<close>, \<^verbatim>\<open>startsWith\<close>, \<^verbatim>\<open>substring\<close>, \<^verbatim>\<open>includes\<close>, \<^verbatim>\<open>split\<close> with a string
  separator, and \<^verbatim>\<open>split\<close>, \<^verbatim>\<open>test\<close> and \<^verbatim>\<open>match\<close> with a regular expression.
\<close>

type_synonym cu = "16 word"
type_synonym jsstring = "cu list"

definition str :: "string \<Rightarrow> jsstring" where
  \<comment> \<open>an ASCII literal of the source as code units\<close>
  "str s = map of_char s"

definition LF :: cu where "LF = 0x0A"
definition TAB :: cu where "TAB = 0x09"
definition HASH :: cu where "HASH = 0x23"
definition COMMA :: cu where "COMMA = 0x2C"
definition DQUOTE :: cu where "DQUOTE = 0x22"

definition isLineTerminator :: "cu \<Rightarrow> bool" where
  \<comment> \<open>ECMAScript LineTerminator: LF, CR, LS, PS\<close>
  "isLineTerminator c \<longleftrightarrow> c = 0x0A \<or> c = 0x0D \<or> c = 0x2028 \<or> c = 0x2029"

definition isWhiteSpace :: "cu \<Rightarrow> bool" where
  \<comment> \<open>ECMAScript WhiteSpace and LineTerminator: what \<^verbatim>\<open>trim\<close> strips and \<^verbatim>\<open>\s\<close> matches\<close>
  "isWhiteSpace c \<longleftrightarrow>
     c = 0x09 \<or> c = 0x0A \<or> c = 0x0B \<or> c = 0x0C \<or> c = 0x0D \<or> c = 0x20 \<or> c = 0xA0 \<or>
     c = 0x1680 \<or> (0x2000 \<le> c \<and> c \<le> 0x200A) \<or> c = 0x2028 \<or> c = 0x2029 \<or>
     c = 0x202F \<or> c = 0x205F \<or> c = 0x3000 \<or> c = 0xFEFF"

definition trim :: "jsstring \<Rightarrow> jsstring" where
  "trim s = rev (dropWhile isWhiteSpace (rev (dropWhile isWhiteSpace s)))"

definition startsWith :: "jsstring \<Rightarrow> jsstring \<Rightarrow> bool" where
  "startsWith s p = prefix p s"

definition substring :: "jsstring \<Rightarrow> nat \<Rightarrow> jsstring" where
  \<comment> \<open>\<^verbatim>\<open>s.substring(n)\<close>; an \<open>n\<close> beyond the end gives the empty string\<close>
  "substring s n = drop n s"

function splitLit :: "jsstring \<Rightarrow> jsstring \<Rightarrow> jsstring \<Rightarrow> jsstring list" where
  \<comment> \<open>the scan of \<^verbatim>\<open>s.split(sep)\<close> for a non-empty separator: \<open>acc\<close> is the piece read so
      far, reversed\<close>
  "splitLit sep acc [] = [rev acc]"
| "splitLit sep acc (x # xs) =
     (if sep \<noteq> [] \<and> prefix sep (x # xs)
      then rev acc # splitLit sep [] (drop (length sep) (x # xs))
      else splitLit sep (x # acc) xs)"
  by pat_completeness auto
termination
  by (relation "measure (\<lambda>(sep, acc, s). length s)") (auto simp: neq_Nil_conv)

definition split :: "jsstring \<Rightarrow> jsstring \<Rightarrow> jsstring list" where
  \<comment> \<open>\<^verbatim>\<open>s.split(sep)\<close>; the empty separator cuts between all code units\<close>
  "split s sep = (if sep = [] then map (\<lambda>c. [c]) s else splitLit sep [] s)"

section \<open>Regular expressions\<close>

text \<open>
  The patterns of the source use literals, \<^verbatim>\<open>.\<close>, \<^verbatim>\<open>\s\<close>, character classes, greedy and
  lazy repetition, groups, alternation and the anchors \<^verbatim>\<open>^\<close> and \<^verbatim>\<open>$\<close> (never with the
  multiline flag). Under the flag \<^verbatim>\<open>i\<close> (without \<^verbatim>\<open>u\<close>) two code units match when their
  canonical forms agree; the canonical form is the upper-case code unit, except that a
  code unit from 128 on is never mapped below 128. Every literal of the source's
  patterns is ASCII, where this is the comparison of \<open>canonicalize\<close> below.
\<close>

definition canonicalize :: "cu \<Rightarrow> cu" where
  "canonicalize c = (if 0x61 \<le> c \<and> c \<le> 0x7A then c - 0x20 else c)"

datatype chset =
    Ch cu         \<comment> \<open>a literal code unit\<close>
  | ChI cu        \<comment> \<open>a literal code unit under the flag \<^verbatim>\<open>i\<close>\<close>
  | Space         \<comment> \<open>\<^verbatim>\<open>\s\<close>\<close>
  | Dot           \<comment> \<open>\<^verbatim>\<open>.\<close>\<close>

fun chset_match :: "chset \<Rightarrow> cu \<Rightarrow> bool" where
  "chset_match (Ch c) x = (x = c)"
| "chset_match (ChI c) x = (canonicalize x = canonicalize c)"
| "chset_match Space x = isWhiteSpace x"
| "chset_match Dot x = (\<not> isLineTerminator x)"

datatype regex =
    Atom chset
  | AnyOf "chset list"      \<comment> \<open>a character class \<^verbatim>\<open>[...]\<close>\<close>
  | Seq regex regex
  | Alt regex regex
  | Star regex              \<comment> \<open>greedy \<^verbatim>\<open>r*\<close>\<close>
  | LazyStar regex          \<comment> \<open>lazy \<^verbatim>\<open>r*?\<close>\<close>
  | Group nat regex         \<comment> \<open>the capturing group of that number\<close>
  | Bol                     \<comment> \<open>\<^verbatim>\<open>^\<close>\<close>
  | Eol                     \<comment> \<open>\<^verbatim>\<open>$\<close>\<close>
  | Empty

text \<open>
  A matcher state is the index reached, the input from there on, and the captures so
  far. \<open>ms r s\<close> lists the states in which a match of \<open>r\<close> started in \<open>s\<close> can end, in the
  order in which a backtracking matcher tries them: the left alternative first, one
  more iteration first for a greedy repetition and last for a lazy one. An iteration of
  a repetition that consumes nothing is rejected, as ECMAScript does.
\<close>

type_synonym mstate = "nat \<times> jsstring \<times> (nat \<rightharpoonup> jsstring)"

function ms :: "regex \<Rightarrow> mstate \<Rightarrow> mstate list" where
  "ms (Atom a) (i, xs, c) =
     (case xs of [] \<Rightarrow> [] | x # xs' \<Rightarrow> if chset_match a x then [(Suc i, xs', c)] else [])"
| "ms (AnyOf as) (i, xs, c) =
     (case xs of [] \<Rightarrow> []
      | x # xs' \<Rightarrow> if list_ex (\<lambda>a. chset_match a x) as then [(Suc i, xs', c)] else [])"
| "ms (Seq r1 r2) s = concat (map (\<lambda>s'. ms r2 s') (ms r1 s))"
| "ms (Alt r1 r2) s = ms r1 s @ ms r2 s"
| "ms (Star r) (i, xs, c) =
     concat (map (\<lambda>s'. ms (Star r) s')
               (filter (\<lambda>s'. length (fst (snd s')) < length xs) (ms r (i, xs, c))))
     @ [(i, xs, c)]"
| "ms (LazyStar r) (i, xs, c) =
     (i, xs, c) #
     concat (map (\<lambda>s'. ms (LazyStar r) s')
               (filter (\<lambda>s'. length (fst (snd s')) < length xs) (ms r (i, xs, c))))"
| "ms (Group n r) (i, xs, c) =
     map (\<lambda>s'. (fst s', fst (snd s'), (snd (snd s'))(n \<mapsto> take (fst s' - i) xs)))
       (ms r (i, xs, c))"
| "ms Bol (i, xs, c) = (if i = 0 then [(i, xs, c)] else [])"
| "ms Eol (i, xs, c) = (if xs = [] then [(i, xs, c)] else [])"
| "ms Empty s = [s]"
  by pat_completeness auto
termination
  by (relation "measures [\<lambda>(r, s). size r, \<lambda>(r, s). length (fst (snd s))]") auto

declare ms.simps [simp del]

definition Plus :: "regex \<Rightarrow> regex" where
  \<comment> \<open>\<^verbatim>\<open>r+\<close>\<close>
  "Plus r = Seq r (Star r)"

definition Opt :: "regex \<Rightarrow> regex" where
  \<comment> \<open>\<^verbatim>\<open>r?\<close>, for an \<open>r\<close> that matches no empty string\<close>
  "Opt r = Alt r Empty"

definition seqs :: "regex list \<Rightarrow> regex" where
  "seqs rs = foldr Seq rs Empty"

definition lit :: "jsstring \<Rightarrow> regex" where
  "lit s = seqs (map (\<lambda>c. Atom (Ch c)) s)"

definition liti :: "jsstring \<Rightarrow> regex" where
  \<comment> \<open>a literal under the flag \<^verbatim>\<open>i\<close>\<close>
  "liti s = seqs (map (\<lambda>c. Atom (ChI c)) s)"

fun execFrom :: "regex \<Rightarrow> nat \<Rightarrow> jsstring \<Rightarrow> mstate option" where
  \<comment> \<open>the search of \<^verbatim>\<open>exec\<close>: the first start index, from \<open>i\<close> on, with a match\<close>
  "execFrom r i [] = (case ms r (i, [], Map.empty) of [] \<Rightarrow> None | m # _ \<Rightarrow> Some m)"
| "execFrom r i (x # xs) =
     (case ms r (i, x # xs, Map.empty) of
        [] \<Rightarrow> execFrom r (Suc i) xs
      | m # _ \<Rightarrow> Some m)"

definition regexTest :: "regex \<Rightarrow> jsstring \<Rightarrow> bool" where
  \<comment> \<open>\<^verbatim>\<open>re.test(s)\<close>\<close>
  "regexTest r s = (execFrom r 0 s \<noteq> None)"

definition regexMatch :: "regex \<Rightarrow> jsstring \<Rightarrow> (nat \<rightharpoonup> jsstring) option" where
  \<comment> \<open>\<^verbatim>\<open>s.match(re)\<close> without the flag \<^verbatim>\<open>g\<close>: \<open>None\<close> is \<^verbatim>\<open>null\<close>, otherwise the
      captures, where an unset one is \<^verbatim>\<open>undefined\<close>\<close>
  "regexMatch r s = map_option (\<lambda>m. snd (snd m)) (execFrom r 0 s)"

function splitLoop :: "regex \<Rightarrow> nat \<Rightarrow> jsstring \<Rightarrow> jsstring \<Rightarrow> jsstring list" where
  \<comment> \<open>the loop of \<^verbatim>\<open>s.split(re)\<close> at index \<open>q\<close>: \<open>acc\<close> is the piece from \<open>p\<close> to \<open>q\<close>,
      reversed. A match at \<open>q\<close> that ends at \<open>p\<close> is skipped; as no match ends before
      it starts, that is one with \<open>fst m \<le> q\<close> while \<open>acc\<close> is empty.\<close>
  "splitLoop r q acc [] = [rev acc]"
| "splitLoop r q acc (x # xs) =
     (case ms r (q, x # xs, Map.empty) of
        [] \<Rightarrow> splitLoop r (Suc q) (x # acc) xs
      | m # _ \<Rightarrow>
          if fst m \<le> q
          then (if acc = [] then splitLoop r (Suc q) [x] xs
                else rev acc # splitLoop r q [] (x # xs))
          else rev acc # splitLoop r (fst m) [] (drop (fst m - q) (x # xs)))"
  by pat_completeness auto
termination
  by (relation "measures [\<lambda>(r, q, acc, s). length s, \<lambda>(r, q, acc, s). length acc]") auto

definition regexSplit :: "jsstring \<Rightarrow> regex \<Rightarrow> jsstring list" where
  \<comment> \<open>\<^verbatim>\<open>s.split(re)\<close> for a pattern without groups\<close>
  "regexSplit s r =
     (if s = [] then (if ms r (0, [], Map.empty) = [] then [[]] else [])
      else splitLoop r 0 [] s)"

section \<open>The card parser\<close>

record AnkiCard =
  question :: jsstring
  answer :: jsstring
  annotation :: "jsstring option"
  tags :: "jsstring list option"

datatype error =
    TypeError                 \<comment> \<open>a method called on \<^verbatim>\<open>undefined\<close>\<close>
  | IncompleteCard            \<comment> \<open>the card has no question or no answer\<close>
  | UnknownFieldMapping       \<comment> \<open>no field mapping for the note type\<close>
  | EmptyField jsstring       \<comment> \<open>the named field would be empty\<close>

definition andThen :: "error + 'a \<Rightarrow> ('a \<Rightarrow> error + 'b) \<Rightarrow> error + 'b" where
  "andThen m f = (case m of Inl e \<Rightarrow> Inl e | Inr x \<Rightarrow> f x)"

definition trimAt :: "jsstring list \<Rightarrow> nat \<Rightarrow> error + jsstring" where
  \<comment> \<open>\<^verbatim>\<open>xs[i].trim()\<close>: an index out of range reads \<^verbatim>\<open>undefined\<close>, whose \<^verbatim>\<open>trim\<close> raises\<close>
  "trimAt xs i = (if i < length xs then Inr (trim (xs ! i)) else Inl TypeError)"

subsection \<open>The patterns of the source\<close>

definition multiLinePattern :: regex where
  \<comment> \<open>\<^verbatim>\<open>/Q:.*\nA:.*(\nannotation:.*)?(\ntags:.*)?/i\<close>\<close>
  "multiLinePattern =
     seqs [liti (str ''Q:''), Star (Atom Dot), liti [LF], liti (str ''A:''), Star (Atom Dot),
           Opt (Group 1 (seqs [liti [LF], liti (str ''annotation:''), Star (Atom Dot)])),
           Opt (Group 2 (seqs [liti [LF], liti (str ''tags:''), Star (Atom Dot)]))]"

definition blockSeparator :: regex where
  \<comment> \<open>\<^verbatim>\<open>/\n\s*\n+/\<close>\<close>
  "blockSeparator = seqs [lit [LF], Star (Atom Space), Plus (Atom (Ch LF))]"

definition tagSeparator :: regex where
  \<comment> \<open>\<^verbatim>\<open>/[\s,]+/\<close>\<close>
  "tagSeparator = Plus (AnyOf [Space, Ch COMMA])"

definition tableHeader :: regex where
  \<comment> \<open>\<^verbatim>\<open>/^Q[\t\s]+A[\t\s]+annotation[\t\s]+tags$/i\<close>\<close>
  "tableHeader =
     seqs [Bol, liti (str ''Q''), Plus (AnyOf [Ch TAB, Space]),
           liti (str ''A''), Plus (AnyOf [Ch TAB, Space]),
           liti (str ''annotation''), Plus (AnyOf [Ch TAB, Space]),
           liti (str ''tags''), Eol]"

definition columnSeparator :: regex where
  \<comment> \<open>\<^verbatim>\<open>/\s{2,}/\<close>\<close>
  "columnSeparator = seqs [Atom Space, Atom Space, Star (Atom Space)]"

definition qaPattern :: regex where
  \<comment> \<open>\<^verbatim>\<open>/Q:\s*(.*?)\s*A:\s*(.*?)(?:\s*annotation:|$|\s*tags:)/i\<close>\<close>
  "qaPattern =
     seqs [liti (str ''Q:''), Star (Atom Space), Group 1 (LazyStar (Atom Dot)),
           Star (Atom Space), liti (str ''A:''), Star (Atom Space),
           Group 2 (LazyStar (Atom Dot)),
           Alt (seqs [Star (Atom Space), liti (str ''annotation:'')])
             (Alt Eol (seqs [Star (Atom Space), liti (str ''tags:'')]))]"

definition annotationPattern :: regex where
  \<comment> \<open>\<^verbatim>\<open>/annotation:\s*(.*?)(?:\s*tags:|$)/i\<close>\<close>
  "annotationPattern =
     seqs [liti (str ''annotation:''), Star (Atom Space), Group 1 (LazyStar (Atom Dot)),
           Alt (seqs [Star (Atom Space), liti (str ''tags:'')]) Eol]"

definition tagsPattern :: regex where
  \<comment> \<open>\<^verbatim>\<open>/tags:\s*(.*?)$/i\<close>\<close>
  "tagsPattern =
     seqs [liti (str ''tags:''), Star (Atom Space), Group 1 (LazyStar (Atom Dot)), Eol]"

subsection \<open>Tags\<close>

definition hashTags :: "jsstring \<Rightarrow> jsstring list" where
  \<comment> \<open>\<^verbatim>\<open>t.split("#").map((tag) => tag.trim()).filter((tag) => tag.length > 0)\<close>\<close>
  "hashTags t = filter (\<lambda>tag. length tag > 0) (map trim (split t [HASH]))"

definition plainTags :: "jsstring \<Rightarrow> jsstring list" where
  \<comment> \<open>\<^verbatim>\<open>t.split(/[\s,]+/).map((tag) => tag.trim()).filter((tag) => tag.length > 0)\<close>\<close>
  "plainTags t = filter (\<lambda>tag. length tag > 0) (map trim (regexSplit t tagSeparator))"

definition parseTags :: "jsstring \<Rightarrow> jsstring list" where
  \<comment> \<open>lines 180-192 and 246-258 of \<^verbatim>\<open>src/main.ts\<close>\<close>
  "parseTags tagsText = (if HASH \<in> set tagsText then hashTags tagsText else plainTags tagsText)"

subsection \<open>The multi-line branch\<close>

definition classifyLine :: "AnkiCard \<Rightarrow> jsstring \<Rightarrow> AnkiCard" where
  \<comment> \<open>the body of the loop over the lines of a block, lines 171-193, on the card \<open>cd\<close>\<close>
  "classifyLine cd line =
     (if startsWith line (str ''Q:'') then cd\<lparr>question := trim (substring line 2)\<rparr>
      else if startsWith line (str ''A:'') then cd\<lparr>answer := trim (substring line 2)\<rparr>
      else if startsWith line (str ''annotation:'')
        then cd\<lparr>annotation := Some (trim (substring line 11))\<rparr>
      else if startsWith line (str ''tags:'')
        then cd\<lparr>tags := Some (parseTags (trim (substring line 5)))\<rparr>
      else cd)"

definition blockLines :: "jsstring \<Rightarrow> jsstring list" where
  "blockLines block = filter (\<lambda>line. line \<noteq> []) (map trim (split block [LF]))"

definition emptyCard :: AnkiCard where
  "emptyCard = \<lparr>question = [], answer = [], annotation = None, tags = None\<rparr>"

definition parseBlock :: "jsstring \<Rightarrow> AnkiCard" where
  "parseBlock block = foldl classifyLine emptyCard (blockLines block)"

fun multiLineLoop :: "jsstring list \<Rightarrow> AnkiCard list \<Rightarrow> AnkiCard list" where
  \<comment> \<open>the loop over the blocks, lines 163-200: \<open>cards\<close> is the array being filled\<close>
  "multiLineLoop [] cards = cards"
| "multiLineLoop (block # blocks) cards =
     (let cd = parseBlock block
      in multiLineLoop blocks
           (if question cd \<noteq> [] \<and> answer cd \<noteq> [] then cards @ [cd] else cards))"

definition cardBlocks :: "jsstring \<Rightarrow> jsstring list" where
  "cardBlocks text = filter (\<lambda>block. trim block \<noteq> []) (regexSplit text blockSeparator)"

definition isMultiLineFormat :: "jsstring \<Rightarrow> bool" where
  "isMultiLineFormat text = regexTest multiLinePattern text"

subsection \<open>The table branch\<close>

definition isTableFormat :: "jsstring \<Rightarrow> bool" where
  "isTableFormat headerLine = regexTest tableHeader headerLine"

definition tableRow :: "jsstring \<Rightarrow> error + AnkiCard option" where
  \<comment> \<open>the body of the loop over the rows, lines 220-263: \<open>None\<close> when no card is pushed\<close>
  "tableRow l =
     (let line = trim l in
      if line = [] then Inr None
      else
        let parts = (if TAB \<in> set line then split line [TAB]
                     else regexSplit line columnSeparator)
        in if 2 \<le> length parts then
             andThen (trimAt parts 0) (\<lambda>q.
             andThen (trimAt parts 1) (\<lambda>a.
             andThen (if 3 \<le> length parts
                      then andThen (trimAt parts 2)
                             (\<lambda>p2. Inr (if p2 \<noteq> [] then Some p2 else None))
                      else Inr None) (\<lambda>ann.
             andThen (if 4 \<le> length parts
                      then andThen (trimAt parts 3)
                             (\<lambda>p3. Inr (if p3 \<noteq> [] then Some (parseTags p3) else None))
                      else Inr None) (\<lambda>tg.
             Inr (Some \<lparr>question = q, answer = a, annotation = ann, tags = tg\<rparr>)))))
           else Inr None)"

fun tableLoop :: "jsstring list \<Rightarrow> AnkiCard list \<Rightarrow> error + AnkiCard list" where
  "tableLoop [] cards = Inr cards"
| "tableLoop (l # ls) cards =
     andThen (tableRow l)
       (\<lambda>r. tableLoop ls (case r of None \<Rightarrow> cards | Some cd \<Rightarrow> cards @ [cd]))"

subsection \<open>The line-oriented branch\<close>

definition fallbackLine :: "jsstring \<Rightarrow> error + AnkiCard option" where
  \<comment> \<open>the body of the loop over the lines, lines 268-306\<close>
  "fallbackLine line =
     (case regexMatch qaPattern line of
        Some qaMatch \<Rightarrow>
          let cd = \<lparr>question = (case qaMatch 1 of Some s \<Rightarrow> trim s | None \<Rightarrow> []),
                      answer = (case qaMatch 2 of Some s \<Rightarrow> trim s | None \<Rightarrow> []),
                      annotation = None, tags = None\<rparr>;
              cd = (case regexMatch annotationPattern line of
                        Some annotationMatch \<Rightarrow>
                          cd\<lparr>annotation := map_option trim (annotationMatch 1)\<rparr>
                      | None \<Rightarrow> cd);
              cd = (case regexMatch tagsPattern line of
                        Some tagsMatch \<Rightarrow>
                          (case tagsMatch 1 of
                             Some t \<Rightarrow> if t \<noteq> [] then cd\<lparr>tags := Some (hashTags t)\<rparr> else cd
                           | None \<Rightarrow> cd)
                      | None \<Rightarrow> cd)
          in Inr (Some cd)
      | None \<Rightarrow>
          let splitLine = split line (str '':::'')
          in if 2 \<le> length splitLine then
               andThen (trimAt splitLine 0) (\<lambda>q.
               andThen (trimAt splitLine 1) (\<lambda>a.
               Inr (Some \<lparr>question = q, answer = a, annotation = None, tags = None\<rparr>)))
             else Inr None)"

fun fallbackLoop :: "jsstring list \<Rightarrow> AnkiCard list \<Rightarrow> error + AnkiCard list" where
  "fallbackLoop [] cards = Inr cards"
| "fallbackLoop (l # ls) cards =
     andThen (fallbackLine l)
       (\<lambda>r. fallbackLoop ls (case r of None \<Rightarrow> cards | Some cd \<Rightarrow> cards @ [cd]))"

subsection \<open>parseAnkiCards\<close>

definition textLines :: "jsstring \<Rightarrow> jsstring list" where
  \<comment> \<open>\<^verbatim>\<open>text.split("\n").filter((line) => line.trim())\<close>, line 203\<close>
  "textLines text = filter (\<lambda>line. trim line \<noteq> []) (split text [LF])"

definition parseAnkiCards :: "jsstring \<Rightarrow> error + AnkiCard list" where
  "parseAnkiCards text =
     (if isMultiLineFormat text then Inr (multiLineLoop (cardBlocks text) [])
      else
        let lines = textLines text
        in if length lines = 0 then Inr []
           else andThen (trimAt lines 0) (\<lambda>headerLine.
                  if isTableFormat headerLine then tableLoop (drop 1 lines) []
                  else fallbackLoop lines []))"

section \<open>The field mapping of a note\<close>

text \<open>
  For each card, the callback of \<^verbatim>\<open>addNotesToAnki\<close> (lines 330-420) first checks that the
  card has a question and an answer (lines 332-336), then builds the object \<^verbatim>\<open>fields\<close> from
  the field names of the note type (lines 338-399) and checks its values (lines 401-406).
  These three steps are the field mapper \<open>mapFields\<close>; \<^verbatim>\<open>modelFieldNames\<close>, which the source
  fetches from Anki Connect, is its second argument. (The check of line 318 is on the deck
  and note type names, which are no arguments of the mapper.) An object is the list of its
  own properties in the order in which \<^verbatim>\<open>Object.entries\<close> enumerates them: the keys that
  are array indices first, in ascending order, then the other keys in the order of their
  creation.
\<close>

type_synonym fields = "(jsstring \<times> jsstring) list"

definition annotationHtml :: "jsstring \<Rightarrow> jsstring" where
  \<comment> \<open>the template literal of lines 358, 370, 382 and 393\<close>
  "annotationHtml a =
     [LF] @ str ''<hr>'' @ [LF] @ str ''<span style='' @ [DQUOTE] @
     str ''color: rgb(143, 53, 8);'' @ [DQUOTE] @ str ''>'' @ a @ str ''</span>''"

definition answerWithAnnotation :: "AnkiCard \<Rightarrow> jsstring" where
  \<comment> \<open>\<^verbatim>\<open>card.answer + (card.annotation ? ... : "")\<close>\<close>
  "answerWithAnnotation cd =
     answer cd @ (case annotation cd of
                    None \<Rightarrow> []
                  | Some a \<Rightarrow> if a \<noteq> [] then annotationHtml a else [])"

definition isDigit :: "cu \<Rightarrow> bool" where
  "isDigit c \<longleftrightarrow> 0x30 \<le> c \<and> c \<le> 0x39"

definition decimalValue :: "jsstring \<Rightarrow> nat" where
  "decimalValue s = foldl (\<lambda>n c. 10 * n + (unat c - 0x30)) 0 s"

definition isArrayIndex :: "jsstring \<Rightarrow> bool" where
  \<comment> \<open>the canonical decimal form of an integer from 0 to \<open>2^32 - 2\<close>\<close>
  "isArrayIndex s \<longleftrightarrow>
     s \<noteq> [] \<and> list_all isDigit s \<and> (s = [0x30] \<or> hd s \<noteq> 0x30) \<and>
     length s \<le> 10 \<and> decimalValue s \<le> 4294967294"

definition objectOf2 :: "jsstring \<Rightarrow> jsstring \<Rightarrow> jsstring \<Rightarrow> jsstring \<Rightarrow> fields" where
  \<comment> \<open>the object literal \<^verbatim>\<open>{ [k0]: v0, [k1]: v1 }\<close>: a repeated key keeps the later value\<close>
  "objectOf2 k0 v0 k1 v1 =
     (if k0 = k1 then [(k0, v1)]
      else if isArrayIndex k1 \<and> (\<not> isArrayIndex k0 \<or> decimalValue k1 < decimalValue k0)
        then [(k1, v1), (k0, v0)]
      else [(k0, v0), (k1, v1)])"

definition Front :: jsstring where "Front = str ''Front''"
definition Back :: jsstring where "Back = str ''Back''"
definition Text :: jsstring where "Text = str ''Text''"
definition Extra :: jsstring where "Extra = str ''Extra''"
definition ZhFront :: jsstring where
  \<comment> \<open>the two-character label of line 362, U+6B63 U+9762\<close>
  "ZhFront = [0x6B63, 0x9762]"
definition ZhBack :: jsstring where
  \<comment> \<open>the two-character label of line 363, U+80CC U+9762\<close>
  "ZhBack = [0x80CC, 0x9762]"

definition buildFields :: "AnkiCard \<Rightarrow> jsstring list \<Rightarrow> error + fields" where
  \<comment> \<open>lines 349-399\<close>
  "buildFields cd modelFieldNames =
     (if Front \<in> set modelFieldNames \<and> Back \<in> set modelFieldNames
        then Inr [(Front, question cd), (Back, answerWithAnnotation cd)]
      else if ZhFront \<in> set modelFieldNames \<and> ZhBack \<in> set modelFieldNames
        then Inr [(ZhFront, question cd), (ZhBack, answerWithAnnotation cd)]
      else if Text \<in> set modelFieldNames \<and> Extra \<in> set modelFieldNames
        then Inr [(Text, question cd), (Extra, answerWithAnnotation cd)]
      else if 2 \<le> length modelFieldNames
        then Inr (objectOf2 (modelFieldNames ! 0) (question cd)
                    (modelFieldNames ! 1) (answerWithAnnotation cd))
      else Inl UnknownFieldMapping)"

fun validateFields :: "fields \<Rightarrow> error + unit" where
  \<comment> \<open>lines 402-406: the first property whose value is empty or blank raises\<close>
  "validateFields [] = Inr ()"
| "validateFields ((key, v) # rest) =
     (if v = [] \<or> trim v = [] then Inl (EmptyField key) else validateFields rest)"

definition mapFields :: "AnkiCard \<Rightarrow> jsstring list \<Rightarrow> error + fields" where
  \<comment> \<open>lines 332-406: the check of the card, then the mapping and the check of its values\<close>
  "mapFields cd modelFieldNames =
     (if question cd = [] \<or> answer cd = [] then Inl IncompleteCard
      else andThen (buildFields cd modelFieldNames)
             (\<lambda>fs. andThen (validateFields fs) (\<lambda>_. Inr fs)))"

section \<open>Texts made of lines\<close>

fun joinLines :: "jsstring list \<Rightarrow> jsstring" where
  \<comment> \<open>the lines with a line feed between them\<close>
  "joinLines [] = []"
| "joinLines [l] = l"
| "joinLines (l # ls) = l @ LF # joinLines ls"

definition fieldText :: "jsstring \<Rightarrow> bool" where
  \<comment> \<open>a non-empty text on one line, without blanks at its ends\<close>
  "fieldText x \<longleftrightarrow> x \<noteq> [] \<and> trim x = x \<and> (\<forall>c\<in>set x. \<not> isLineTerminator c)"

definition goodLine :: "jsstring \<Rightarrow> bool" where
  \<comment> \<open>a non-empty line without a line feed and without blanks at its ends\<close>
  "goodLine l \<longleftrightarrow> l \<noteq> [] \<and> LF \<notin> set l \<and> trim l = l"

section \<open>Properties of the string operations\<close>

lemma trim_Nil: "trim [] = []"
  by (simp add: trim_def)

lemma trim_eq_Nil_iff: "trim s = [] \<longleftrightarrow> (\<forall>c\<in>set s. isWhiteSpace c)"
proof
  assume "trim s = []"
  then have a: "\<forall>c\<in>set (dropWhile isWhiteSpace s). isWhiteSpace c"
    by (simp add: trim_def dropWhile_eq_Nil_conv)
  have "dropWhile isWhiteSpace s = []"
  proof (rule ccontr)
    assume n: "dropWhile isWhiteSpace s \<noteq> []"
    then have "\<not> isWhiteSpace (hd (dropWhile isWhiteSpace s))" by (rule hd_dropWhile)
    moreover have "hd (dropWhile isWhiteSpace s) \<in> set (dropWhile isWhiteSpace s)"
      using n by simp
    ultimately show False using a by blast
  qed
  then show "\<forall>c\<in>set s. isWhiteSpace c"
    by (simp add: dropWhile_eq_Nil_conv)
next
  assume "\<forall>c\<in>set s. isWhiteSpace c"
  then show "trim s = []"
    by (auto simp: trim_def dest: set_dropWhileD)
qed

lemma trim_Cons_nonws:
  assumes "\<not> isWhiteSpace a"
  shows "trim (a # s) = a # rev (dropWhile isWhiteSpace (rev s))"
proof -
  have "dropWhile isWhiteSpace (rev s @ [a]) = dropWhile isWhiteSpace (rev s) @ [a]"
    using assms by (simp add: dropWhile_append3)
  then show ?thesis using assms by (simp add: trim_def)
qed

lemma trim_ws_Cons: "isWhiteSpace a \<Longrightarrow> trim (a # s) = trim s"
  by (simp add: trim_def)

lemma length_trim_le: "length (trim s) \<le> length s"
proof -
  have "length (trim s) \<le> length (dropWhile isWhiteSpace s)"
    unfolding trim_def length_rev using length_dropWhile_le[of isWhiteSpace "rev (dropWhile isWhiteSpace s)"] by simp
  also have "\<dots> \<le> length s" by (rule length_dropWhile_le)
  finally show ?thesis .
qed

lemma rev_dropWhile_rev_fixed:
  "rev (dropWhile P (rev t)) = t \<longleftrightarrow> t = [] \<or> \<not> P (last t)"
proof (cases t rule: rev_cases)
  case Nil
  then show ?thesis by simp
next
  case (snoc u b)
  show ?thesis
  proof (cases "P b")
    case True
    have "length (rev (dropWhile P (rev u))) \<le> length u"
      using length_dropWhile_le[of P "rev u"] by simp
    then have "length (rev (dropWhile P (rev u))) \<noteq> length (u @ [b])"
      by simp
    then have "rev (dropWhile P (rev u)) \<noteq> u @ [b]"
      by (rule contrapos_nn) (erule arg_cong)
    then show ?thesis using snoc True by simp
  next
    case False
    then show ?thesis using snoc by simp
  qed
qed

lemma trim_fixed_iff:
  "trim s = s \<longleftrightarrow> s = [] \<or> (\<not> isWhiteSpace (hd s) \<and> \<not> isWhiteSpace (last s))"
proof (cases s)
  case Nil
  then show ?thesis by (simp add: trim_Nil)
next
  case (Cons a t)
  show ?thesis
  proof (cases "isWhiteSpace a")
    case True
    have "length (trim (a # t)) \<le> length t"
      using True length_trim_le[of t] by (simp add: trim_ws_Cons)
    then have "trim (a # t) \<noteq> a # t" by auto
    then show ?thesis using Cons True by simp
  next
    case False
    then show ?thesis using Cons
      by (auto simp: trim_Cons_nonws rev_dropWhile_rev_fixed)
  qed
qed

lemma trim_append_fixed:
  assumes "\<not> isWhiteSpace a" and "trim x = x" and "x \<noteq> []"
  shows "trim (a # p @ x) = a # p @ x"
  using assms by (simp add: trim_fixed_iff)

section \<open>Properties of the matcher\<close>

lemma concat_map_ms_Empty: "concat (map (ms Empty) l) = l"
  by (induction l) (simp_all add: ms.simps)

lemma ms_Seq_fun: "ms (Seq a b) = (\<lambda>s. concat (map (ms b) (ms a s)))"
  by (rule ext) (simp add: ms.simps(3))

lemma ms_Seq_assoc: "ms (Seq (Seq a b) r) s = ms (Seq a (Seq b r)) s"
proof -
  have "concat (map (ms r) (concat (map (ms b) l))) =
        concat (map (\<lambda>s'. concat (map (ms r) (ms b s'))) l)" for l
    by (induction l) simp_all
  then show ?thesis by (simp add: ms_Seq_fun)
qed

lemma ms_Seq_Empty: "ms (Seq Empty r) s = ms r s"
  by (simp add: ms.simps)

lemma ms_Seq_Empty2: "ms (Seq r Empty) s = ms r s"
  by (simp add: ms.simps concat_map_ms_Empty)

lemma ms_Seq_Atom_Nil: "ms (Seq (Atom a) r) (i, [], c) = []"
  by (simp add: ms.simps)

lemma ms_Seq_Atom_Cons:
  "ms (Seq (Atom a) r) (i, x # xs, c) = (if chset_match a x then ms r (Suc i, xs, c) else [])"
  by (simp add: ms.simps)

lemma ms_Seq_AnyOf_Nil: "ms (Seq (AnyOf as) r) (i, [], c) = []"
  by (simp add: ms.simps)

lemma ms_Seq_AnyOf_Cons:
  "ms (Seq (AnyOf as) r) (i, x # xs, c) =
     (if list_ex (\<lambda>a. chset_match a x) as then ms r (Suc i, xs, c) else [])"
  by (simp add: ms.simps)

lemma ms_Seq_Alt: "ms (Seq (Alt a b) r) s = ms (Seq a r) s @ ms (Seq b r) s"
  by (simp add: ms.simps)

lemma ms_Star_Atom_Nil: "ms (Star (Atom a)) (i, [], c) = [(i, [], c)]"
  by (simp add: ms.simps)

lemma ms_Star_Atom_Cons:
  "ms (Star (Atom a)) (i, x # xs, c) =
     (if chset_match a x then ms (Star (Atom a)) (Suc i, xs, c) else []) @ [(i, x # xs, c)]"
  by (subst ms.simps(5)) (simp add: ms.simps(1))

lemma ms_Star_AnyOf_Nil: "ms (Star (AnyOf as)) (i, [], c) = [(i, [], c)]"
  by (simp add: ms.simps)

lemma ms_Star_AnyOf_Cons:
  "ms (Star (AnyOf as)) (i, x # xs, c) =
     (if list_ex (\<lambda>a. chset_match a x) as then ms (Star (AnyOf as)) (Suc i, xs, c) else [])
     @ [(i, x # xs, c)]"
  by (subst ms.simps(5)) (simp add: ms.simps(2))

lemma ms_LazyStar_Atom_Nil: "ms (LazyStar (Atom a)) (i, [], c) = [(i, [], c)]"
  by (simp add: ms.simps)

lemma ms_LazyStar_Atom_Cons:
  "ms (LazyStar (Atom a)) (i, x # xs, c) =
     (i, x # xs, c) # (if chset_match a x then ms (LazyStar (Atom a)) (Suc i, xs, c) else [])"
  by (subst ms.simps(6)) (simp add: ms.simps(1))

lemma ms_Seq_Star_Atom_Nil: "ms (Seq (Star (Atom a)) r) (i, [], c) = ms r (i, [], c)"
  by (simp add: ms.simps(3) ms_Star_Atom_Nil)

lemma ms_Seq_Star_Atom_Cons:
  "ms (Seq (Star (Atom a)) r) (i, x # xs, c) =
     (if chset_match a x then ms (Seq (Star (Atom a)) r) (Suc i, xs, c) else [])
     @ ms r (i, x # xs, c)"
  by (simp add: ms.simps(3) ms_Star_Atom_Cons)

lemma ms_Seq_Star_AnyOf_Nil: "ms (Seq (Star (AnyOf as)) r) (i, [], c) = ms r (i, [], c)"
  by (simp add: ms.simps(3) ms_Star_AnyOf_Nil)

lemma ms_Seq_Star_AnyOf_Cons:
  "ms (Seq (Star (AnyOf as)) r) (i, x # xs, c) =
     (if list_ex (\<lambda>a. chset_match a x) as then ms (Seq (Star (AnyOf as)) r) (Suc i, xs, c) else [])
     @ ms r (i, x # xs, c)"
  by (simp add: ms.simps(3) ms_Star_AnyOf_Cons)

lemma ms_Seq_Bol: "ms (Seq Bol r) (i, xs, c) = (if i = 0 then ms r (i, xs, c) else [])"
  by (simp add: ms.simps)

lemma ms_Seq_Eol: "ms (Seq Eol r) (i, xs, c) = (if xs = [] then ms r (i, xs, c) else [])"
  by (simp add: ms.simps)

lemma ms_Seq_Group:
  "ms (Seq (Group n g) r) (i, xs, c) =
     concat (map (\<lambda>s'. ms r (fst s', fst (snd s'), (snd (snd s'))(n \<mapsto> take (fst s' - i) xs)))
               (ms g (i, xs, c)))"
  by (simp add: ms.simps(3,7) comp_def)

lemma ms_Star_mem: "s \<in> set (ms (Star r) s)"
proof (cases s rule: prod_cases3)
  case (fields i xs c)
  then show ?thesis by (simp add: ms.simps(5)[of r i xs c])
qed

text \<open>Rewrite rules that run the matcher and the parser on a given text.\<close>

lemmas ms_eval =
  ms_Seq_assoc ms_Seq_Empty ms_Seq_Empty2 ms_Seq_Atom_Nil ms_Seq_Atom_Cons
  ms_Seq_AnyOf_Nil ms_Seq_AnyOf_Cons ms_Seq_Alt ms_Seq_Star_Atom_Nil ms_Seq_Star_Atom_Cons
  ms_Seq_Star_AnyOf_Nil ms_Seq_Star_AnyOf_Cons ms_Seq_Bol ms_Seq_Eol ms_Seq_Group
  ms_Star_Atom_Nil ms_Star_Atom_Cons ms_Star_AnyOf_Nil ms_Star_AnyOf_Cons
  ms_LazyStar_Atom_Nil ms_LazyStar_Atom_Cons
  ms.simps(1,2,4,7,8,9,10)

lemmas regex_defs =
  multiLinePattern_def blockSeparator_def tagSeparator_def tableHeader_def columnSeparator_def
  qaPattern_def annotationPattern_def tagsPattern_def
  seqs_def lit_def liti_def Plus_def Opt_def

lemmas char_defs =
  str_def LF_def TAB_def HASH_def COMMA_def DQUOTE_def canonicalize_def isWhiteSpace_def
  isLineTerminator_def

lemmas parse_defs =
  parseAnkiCards_def textLines_def isMultiLineFormat_def isTableFormat_def regexTest_def regexMatch_def
  regexSplit_def cardBlocks_def parseBlock_def blockLines_def classifyLine_def emptyCard_def
  parseTags_def hashTags_def plainTags_def tableRow_def fallbackLine_def
  trimAt_def andThen_def trim_def split_def startsWith_def substring_def Let_def

lemmas map_defs =
  mapFields_def buildFields_def objectOf2_def isArrayIndex_def decimalValue_def isDigit_def
  answerWithAnnotation_def annotationHtml_def Front_def Back_def ZhFront_def ZhBack_def
  Text_def Extra_def

lemmas eval_all = ms_eval regex_defs char_defs parse_defs

section \<open>The table example\<close>

text \<open>
  Claim C8. The two-line text with the header \<^verbatim>\<open>Q<TAB>A<TAB>annotation<TAB>tags\<close> and the
  row \<^verbatim>\<open>foo<TAB>bar<TAB>note<TAB>#x #y\<close> is parsed by the table branch into exactly one card
  with question \<^verbatim>\<open>foo\<close>, answer \<^verbatim>\<open>bar\<close>, annotation \<^verbatim>\<open>note\<close> and the tags \<^verbatim>\<open>x\<close>, \<^verbatim>\<open>y\<close>.
\<close>

theorem parse_table_example:
  "\<not> isMultiLineFormat
       (str ''Q'' @ [TAB] @ str ''A'' @ [TAB] @ str ''annotation'' @ [TAB] @ str ''tags'' @ [LF] @
        str ''foo'' @ [TAB] @ str ''bar'' @ [TAB] @ str ''note'' @ [TAB] @ str ''#x #y'') \<and>
   isTableFormat (str ''Q'' @ [TAB] @ str ''A'' @ [TAB] @ str ''annotation'' @ [TAB] @ str ''tags'') \<and>
   parseAnkiCards
       (str ''Q'' @ [TAB] @ str ''A'' @ [TAB] @ str ''annotation'' @ [TAB] @ str ''tags'' @ [LF] @
        str ''foo'' @ [TAB] @ str ''bar'' @ [TAB] @ str ''note'' @ [TAB] @ str ''#x #y'')
     = Inr [\<lparr>question = str ''foo'', answer = str ''bar'', annotation = Some (str ''note''),
              tags = Some [str ''x'', str ''y'']\<rparr>]"
  by (simp add: eval_all)

section \<open>The field mapper\<close>

lemma two_members_length:
  assumes "a \<in> set l" and "b \<in> set l" and "a \<noteq> b"
  shows "2 \<le> length l"
proof -
  have "{a, b} \<subseteq> set l" using assms by simp
  then have "card {a, b} \<le> card (set l)" by (simp add: card_mono)
  also have "\<dots> \<le> length l" by (rule card_length)
  finally show ?thesis using assms by simp
qed

lemma template_names_distinct: "Front \<noteq> Back" "ZhFront \<noteq> ZhBack" "Text \<noteq> Extra"
  by (simp_all add: Front_def Back_def ZhFront_def ZhBack_def Text_def Extra_def str_def)

lemma buildFields_Inl_iff:
  "buildFields cd names = Inl e \<longleftrightarrow> e = UnknownFieldMapping \<and> length names < 2"
  using two_members_length[of Front names Back] two_members_length[of ZhFront names ZhBack]
    two_members_length[of Text names Extra] template_names_distinct
  by (auto simp: buildFields_def)

lemma validateFields_Inl:
  "validateFields fs = Inl e \<Longrightarrow> \<exists>k v. e = EmptyField k \<and> (k, v) \<in> set fs \<and> trim v = []"
proof (induction fs rule: validateFields.induct)
  case 1
  then show ?case by simp
next
  case (2 key v rest)
  show ?case
  proof (cases "trim v = []")
    case True
    with 2(2) have "e = EmptyField key" by simp
    with True show ?thesis by auto
  next
    case False
    then have "v \<noteq> []" by (auto simp: trim_Nil)
    with False 2 obtain k w where "e = EmptyField k" "(k, w) \<in> set rest" "trim w = []"
      by auto
    then show ?thesis by auto
  qed
qed

lemma validateFields_Inr_iff:
  "validateFields fs = Inr u \<longleftrightarrow> (\<forall>kv\<in>set fs. trim (snd kv) \<noteq> [])"
  by (induction fs rule: validateFields.induct) (auto simp: trim_Nil)

lemma mapFields_Inl_iff:
  "mapFields cd names = Inl e \<longleftrightarrow>
     ((question cd = [] \<or> answer cd = []) \<and> e = IncompleteCard) \<or>
     (question cd \<noteq> [] \<and> answer cd \<noteq> [] \<and>
      (buildFields cd names = Inl e \<or>
       (\<exists>fs. buildFields cd names = Inr fs \<and> validateFields fs = Inl e)))"
  by (auto simp: mapFields_def andThen_def split: sum.splits)

lemma validateFields_blank:
  assumes "\<exists>kv\<in>set fs. trim (snd kv) = []"
  shows "\<exists>k. validateFields fs = Inl (EmptyField k)"
proof -
  from assms have "validateFields fs \<noteq> Inr ()" by (simp add: validateFields_Inr_iff)
  then obtain e where e: "validateFields fs = Inl e" by (cases "validateFields fs") auto
  from validateFields_Inl[OF e] e show ?thesis by auto
qed

text \<open>
  Claim C4, as amended. \<open>mapFields\<close> raises exactly when the card has an empty question or
  an empty answer, or the note type declares fewer than two field names (such a list
  matches no known template), or some value of the computed mapping is empty after
  trimming. The first case raises the error of the incomplete card, whatever the field
  names are. For a card with a question and an answer, fewer than two field names raise
  the error of the unknown mapping, and with two or more a value that is empty after
  trimming raises an error that names a field of the computed mapping with such a value.
  An error is never accompanied by a mapping.
\<close>

theorem mapFields_raises_iff:
  "((\<exists>e. mapFields cd names = Inl e) \<longleftrightarrow>
      question cd = [] \<or> answer cd = [] \<or> length names < 2 \<or>
      (\<exists>fs. buildFields cd names = Inr fs \<and> (\<exists>kv\<in>set fs. trim (snd kv) = []))) \<and>
   (mapFields cd names = Inl IncompleteCard \<longleftrightarrow> question cd = [] \<or> answer cd = []) \<and>
   (mapFields cd names = Inl UnknownFieldMapping \<longleftrightarrow>
      question cd \<noteq> [] \<and> answer cd \<noteq> [] \<and> length names < 2) \<and>
   (length names < 2 \<longrightarrow>
      \<not> (Front \<in> set names \<and> Back \<in> set names) \<and>
      \<not> (ZhFront \<in> set names \<and> ZhBack \<in> set names) \<and>
      \<not> (Text \<in> set names \<and> Extra \<in> set names)) \<and>
   (\<forall>k. mapFields cd names = Inl (EmptyField k) \<longrightarrow>
      question cd \<noteq> [] \<and> answer cd \<noteq> [] \<and>
      (\<exists>fs v. buildFields cd names = Inr fs \<and> (k, v) \<in> set fs \<and> trim v = [])) \<and>
   (question cd \<noteq> [] \<and> answer cd \<noteq> [] \<and>
    (\<exists>fs. buildFields cd names = Inr fs \<and> (\<exists>kv\<in>set fs. trim (snd kv) = []))
    \<longrightarrow> (\<exists>k. mapFields cd names = Inl (EmptyField k)))"
proof (intro conjI)
  show blank: "question cd \<noteq> [] \<and> answer cd \<noteq> [] \<and>
    (\<exists>fs. buildFields cd names = Inr fs \<and> (\<exists>kv\<in>set fs. trim (snd kv) = []))
    \<longrightarrow> (\<exists>k. mapFields cd names = Inl (EmptyField k))"
  proof
    assume a: "question cd \<noteq> [] \<and> answer cd \<noteq> [] \<and>
      (\<exists>fs. buildFields cd names = Inr fs \<and> (\<exists>kv\<in>set fs. trim (snd kv) = []))"
    then obtain fs where fs: "buildFields cd names = Inr fs"
      and bad: "\<exists>kv\<in>set fs. trim (snd kv) = []" by blast
    from validateFields_blank[OF bad] obtain k where "validateFields fs = Inl (EmptyField k)" ..
    with a fs have "mapFields cd names = Inl (EmptyField k)" by (simp add: mapFields_Inl_iff)
    then show "\<exists>k. mapFields cd names = Inl (EmptyField k)" ..
  qed
  show "(\<exists>e. mapFields cd names = Inl e) \<longleftrightarrow>
      question cd = [] \<or> answer cd = [] \<or> length names < 2 \<or>
      (\<exists>fs. buildFields cd names = Inr fs \<and> (\<exists>kv\<in>set fs. trim (snd kv) = []))"
  proof
    assume "\<exists>e. mapFields cd names = Inl e"
    then obtain e where e: "mapFields cd names = Inl e" ..
    then consider "question cd = [] \<or> answer cd = []" | "buildFields cd names = Inl e"
      | fs where "buildFields cd names = Inr fs" "validateFields fs = Inl e"
      by (auto simp: mapFields_Inl_iff)
    then show "question cd = [] \<or> answer cd = [] \<or> length names < 2 \<or>
      (\<exists>fs. buildFields cd names = Inr fs \<and> (\<exists>kv\<in>set fs. trim (snd kv) = []))"
    proof cases
      case 1
      then show ?thesis by blast
    next
      case 2
      then show ?thesis by (simp add: buildFields_Inl_iff)
    next
      case 3
      from validateFields_Inl[OF 3(2)] obtain k v where "(k, v) \<in> set fs" "trim v = []"
        by blast
      then have "\<exists>kv\<in>set fs. trim (snd kv) = []" by force
      with 3(1) show ?thesis by blast
    qed
  next
    assume a: "question cd = [] \<or> answer cd = [] \<or> length names < 2 \<or>
      (\<exists>fs. buildFields cd names = Inr fs \<and> (\<exists>kv\<in>set fs. trim (snd kv) = []))"
    show "\<exists>e. mapFields cd names = Inl e"
    proof (cases "question cd = [] \<or> answer cd = []")
      case True
      then have "mapFields cd names = Inl IncompleteCard" by (simp add: mapFields_Inl_iff)
      then show ?thesis ..
    next
      case complete: False
      show ?thesis
      proof (cases "length names < 2")
        case True
        then have "buildFields cd names = Inl UnknownFieldMapping"
          by (simp add: buildFields_Inl_iff)
        with complete have "mapFields cd names = Inl UnknownFieldMapping"
          by (simp add: mapFields_Inl_iff)
        then show ?thesis ..
      next
        case False
        with a complete have "question cd \<noteq> [] \<and> answer cd \<noteq> [] \<and>
          (\<exists>fs. buildFields cd names = Inr fs \<and> (\<exists>kv\<in>set fs. trim (snd kv) = []))" by blast
        with blank show ?thesis by blast
      qed
    qed
  qed
  show "mapFields cd names = Inl IncompleteCard \<longleftrightarrow> question cd = [] \<or> answer cd = []"
    by (auto simp: mapFields_Inl_iff buildFields_Inl_iff dest: validateFields_Inl)
  show "mapFields cd names = Inl UnknownFieldMapping \<longleftrightarrow>
      question cd \<noteq> [] \<and> answer cd \<noteq> [] \<and> length names < 2"
    by (auto simp: mapFields_Inl_iff buildFields_Inl_iff dest: validateFields_Inl)
  show "length names < 2 \<longrightarrow>
      \<not> (Front \<in> set names \<and> Back \<in> set names) \<and>
      \<not> (ZhFront \<in> set names \<and> ZhBack \<in> set names) \<and>
      \<not> (Text \<in> set names \<and> Extra \<in> set names)"
    using two_members_length[of Front names Back] two_members_length[of ZhFront names ZhBack]
      two_members_length[of Text names Extra] template_names_distinct
    by auto
  show "\<forall>k. mapFields cd names = Inl (EmptyField k) \<longrightarrow>
      question cd \<noteq> [] \<and> answer cd \<noteq> [] \<and>
      (\<exists>fs v. buildFields cd names = Inr fs \<and> (k, v) \<in> set fs \<and> trim v = [])"
  proof (intro allI impI)
    fix k
    assume "mapFields cd names = Inl (EmptyField k)"
    then obtain fs where c: "question cd \<noteq> [] \<and> answer cd \<noteq> []"
      and fs: "buildFields cd names = Inr fs"
      and v: "validateFields fs = Inl (EmptyField k)"
      by (auto simp: mapFields_Inl_iff buildFields_Inl_iff)
    from validateFields_Inl[OF v] obtain v where "(k, v) \<in> set fs" "trim v = []" by auto
    with fs c show "question cd \<noteq> [] \<and> answer cd \<noteq> [] \<and>
      (\<exists>fs v. buildFields cd names = Inr fs \<and> (k, v) \<in> set fs \<and> trim v = [])"
      by blast
  qed
qed

theorem mapFields_raises_witness:
  "length [str ''f1''] < 2 \<and>
   mapFields \<lparr>question = str ''Q'', answer = str ''A'', annotation = None, tags = None\<rparr>
     [str ''f1''] = Inl UnknownFieldMapping \<and>
   mapFields \<lparr>question = str ''Q'', answer = [], annotation = None, tags = None\<rparr>
     [Front, Back] = Inl IncompleteCard \<and>
   mapFields \<lparr>question = str ''Q'', answer = str '' '', annotation = None, tags = None\<rparr>
     [Front, Back] = Inl (EmptyField Back) \<and>
   (\<exists>fs v. buildFields \<lparr>question = str ''Q'', answer = str '' '', annotation = None, tags = None\<rparr>
       [Front, Back] = Inr fs \<and> (Back, v) \<in> set fs \<and> trim v = [])"
proof -
  let ?ok = "\<lparr>question = str ''Q'', answer = str ''A'', annotation = None, tags = None\<rparr>"
  let ?no = "\<lparr>question = str ''Q'', answer = [], annotation = None, tags = None\<rparr>"
  let ?bl = "\<lparr>question = str ''Q'', answer = str '' '', annotation = None, tags = None\<rparr>"
  have e: "mapFields ?bl [Front, Back] = Inl (EmptyField Back)"
    by (simp add: map_defs andThen_def trim_def char_defs)
  have "question ?ok \<noteq> [] \<and> answer ?ok \<noteq> [] \<and> length [str ''f1''] < 2"
    by (simp add: str_def)
  with mapFields_raises_iff[of ?ok "[str ''f1'']"]
  have u: "mapFields ?ok [str ''f1''] = Inl UnknownFieldMapping" by blast
  have "question ?no = [] \<or> answer ?no = []" by simp
  with mapFields_raises_iff[of ?no "[Front, Back]"]
  have i: "mapFields ?no [Front, Back] = Inl IncompleteCard" by blast
  from mapFields_raises_iff[of ?bl "[Front, Back]"] e
  have "\<exists>fs v. buildFields ?bl [Front, Back] = Inr fs \<and> (Back, v) \<in> set fs \<and> trim v = []"
    by blast
  with e u i show ?thesis by simp
qed

theorem mapFields_incomplete_card_counterexample:
  "2 \<le> length [Front, Back] \<and>
   buildFields \<lparr>question = str ''Q'', answer = [], annotation = Some (str ''n''), tags = None\<rparr>
     [Front, Back] = Inr [(Front, str ''Q''), (Back, annotationHtml (str ''n''))] \<and>
   trim (str ''Q'') \<noteq> [] \<and> trim (annotationHtml (str ''n'')) \<noteq> [] \<and>
   mapFields \<lparr>question = str ''Q'', answer = [], annotation = Some (str ''n''), tags = None\<rparr>
     [Front, Back] = Inl IncompleteCard"
  by (simp add: map_defs andThen_def trim_def char_defs)

text \<open>
  Claim C5, as amended. For a list of field names that contains \<^verbatim>\<open>Front\<close> and \<^verbatim>\<open>Back\<close> and
  a card whose question is not empty after trimming, whose answer is not empty, and whose
  answer with its annotation is not empty after trimming, \<open>mapFields\<close> returns exactly the
  mapping of \<^verbatim>\<open>Front\<close> to the question and of \<^verbatim>\<open>Back\<close> to the answer with its annotation.
  The answer with its annotation is the answer alone when the annotation is absent or
  empty, and otherwise the answer, a line feed, \<^verbatim>\<open><hr>\<close>, a line feed and the annotation in
  a \<^verbatim>\<open>span\<close> element.
\<close>

theorem mapFields_Front_Back:
  assumes "Front \<in> set names" and "Back \<in> set names"
    and "trim (question cd) \<noteq> []" and "answer cd \<noteq> []"
    and "trim (answerWithAnnotation cd) \<noteq> []"
  shows "mapFields cd names = Inr [(Front, question cd), (Back, answerWithAnnotation cd)] \<and>
         answerWithAnnotation cd =
           (case annotation cd of
              None \<Rightarrow> answer cd
            | Some a \<Rightarrow>
                if a = [] then answer cd
                else answer cd @ [LF] @ str ''<hr>'' @ [LF] @ str ''<span style='' @ [DQUOTE] @
                     str ''color: rgb(143, 53, 8);'' @ [DQUOTE] @ str ''>'' @ a @ str ''</span>'')"
proof
  have "question cd \<noteq> []" using assms(3) by (auto simp: trim_Nil)
  then show "mapFields cd names = Inr [(Front, question cd), (Back, answerWithAnnotation cd)]"
    using assms by (auto simp: mapFields_def buildFields_def andThen_def trim_Nil)
  show "answerWithAnnotation cd =
           (case annotation cd of
              None \<Rightarrow> answer cd
            | Some a \<Rightarrow>
                if a = [] then answer cd
                else answer cd @ [LF] @ str ''<hr>'' @ [LF] @ str ''<span style='' @ [DQUOTE] @
                     str ''color: rgb(143, 53, 8);'' @ [DQUOTE] @ str ''>'' @ a @ str ''</span>'')"
    by (simp add: answerWithAnnotation_def annotationHtml_def split: option.splits)
qed

theorem mapFields_Front_Back_witness:
  "Front \<in> set [Front, Back] \<and> Back \<in> set [Front, Back] \<and>
   trim (str ''Q'') \<noteq> [] \<and> str ''A'' \<noteq> [] \<and>
   mapFields \<lparr>question = str ''Q'', answer = str ''A'', annotation = None, tags = None\<rparr>
     [Front, Back] = Inr [(Front, str ''Q''), (Back, str ''A'')]"
  using mapFields_Front_Back[of "[Front, Back]"
      "\<lparr>question = str ''Q'', answer = str ''A'', annotation = None, tags = None\<rparr>"]
  by (simp add: answerWithAnnotation_def trim_def char_defs)

theorem mapFields_blank_question_counterexample:
  "Front \<in> set [Front, Back] \<and> Back \<in> set [Front, Back] \<and>
   question \<lparr>question = str '' '', answer = str ''A'', annotation = None, tags = None\<rparr> \<noteq> [] \<and>
   mapFields \<lparr>question = str '' '', answer = str ''A'', annotation = None, tags = None\<rparr>
     [Front, Back] = Inl (EmptyField Front) \<and>
   mapFields \<lparr>question = str ''Q'', answer = str '' '', annotation = None, tags = None\<rparr>
     [Front, Back] = Inl (EmptyField Back) \<and>
   mapFields \<lparr>question = str ''Q'', answer = [], annotation = Some (str ''n''), tags = None\<rparr>
     [Front, Back] = Inl IncompleteCard"
  by (simp add: map_defs andThen_def trim_def char_defs)

section \<open>The cards of the blocks\<close>

lemma multiLineLoop_eq:
  "multiLineLoop blocks cards =
     cards @ concat (map (\<lambda>b. if question (parseBlock b) \<noteq> [] \<and> answer (parseBlock b) \<noteq> []
                               then [parseBlock b] else []) blocks)"
  by (induction blocks arbitrary: cards) (simp_all add: Let_def)

lemma prefix_markers_distinct:
  "startsWith l (str ''Q:'') \<Longrightarrow> \<not> startsWith l (str ''A:'')"
  "startsWith l (str ''Q:'') \<Longrightarrow> \<not> startsWith l (str ''annotation:'')"
  "startsWith l (str ''Q:'') \<Longrightarrow> \<not> startsWith l (str ''tags:'')"
  "startsWith l (str ''A:'') \<Longrightarrow> \<not> startsWith l (str ''annotation:'')"
  "startsWith l (str ''A:'') \<Longrightarrow> \<not> startsWith l (str ''tags:'')"
  "startsWith l (str ''annotation:'') \<Longrightarrow> \<not> startsWith l (str ''tags:'')"
  by (cases l; simp add: startsWith_def str_def)+

lemma foldl_classifyLine_question:
  "question (foldl classifyLine cd ls) =
     (let qs = filter (\<lambda>l. startsWith l (str ''Q:'')) ls
      in if qs = [] then question cd else trim (substring (last qs) 2))"
  by (induction ls rule: rev_induct) (simp_all add: classifyLine_def Let_def)

lemma foldl_classifyLine_answer:
  "answer (foldl classifyLine cd ls) =
     (let as = filter (\<lambda>l. startsWith l (str ''A:'')) ls
      in if as = [] then answer cd else trim (substring (last as) 2))"
  by (induction ls rule: rev_induct)
    (auto simp: classifyLine_def Let_def dest: prefix_markers_distinct)

lemma foldl_classifyLine_annotation:
  "annotation (foldl classifyLine cd ls) =
     (let ns = filter (\<lambda>l. startsWith l (str ''annotation:'')) ls
      in if ns = [] then annotation cd else Some (trim (substring (last ns) 11)))"
  by (induction ls rule: rev_induct)
    (auto simp: classifyLine_def Let_def dest: prefix_markers_distinct)

lemma foldl_classifyLine_tags:
  "tags (foldl classifyLine cd ls) =
     (let ts = filter (\<lambda>l. startsWith l (str ''tags:'')) ls
      in if ts = [] then tags cd else Some (parseTags (trim (substring (last ts) 5))))"
  by (induction ls rule: rev_induct)
    (auto simp: classifyLine_def Let_def dest: prefix_markers_distinct)

text \<open>
  Claim C10. In the multi-line branch the result is the concatenation, over the blocks in
  order, of at most one card per block: the card of the block when its question and its
  answer are both non-empty, and nothing otherwise. Each field of the card of a block
  comes from the last line of the block with that field's marker; without such a line
  the field keeps its initial value.
\<close>

theorem multiLine_last_marker_wins:
  "(isMultiLineFormat text \<longrightarrow>
      parseAnkiCards text =
        Inr (concat (map (\<lambda>b. if question (parseBlock b) \<noteq> [] \<and> answer (parseBlock b) \<noteq> []
                                then [parseBlock b] else []) (cardBlocks text)))) \<and>
   question (parseBlock block) =
     (let qs = filter (\<lambda>l. startsWith l (str ''Q:'')) (blockLines block)
      in if qs = [] then [] else trim (substring (last qs) 2)) \<and>
   answer (parseBlock block) =
     (let as = filter (\<lambda>l. startsWith l (str ''A:'')) (blockLines block)
      in if as = [] then [] else trim (substring (last as) 2)) \<and>
   annotation (parseBlock block) =
     (let ns = filter (\<lambda>l. startsWith l (str ''annotation:'')) (blockLines block)
      in if ns = [] then None else Some (trim (substring (last ns) 11))) \<and>
   tags (parseBlock block) =
     (let ts = filter (\<lambda>l. startsWith l (str ''tags:'')) (blockLines block)
      in if ts = [] then None else Some (parseTags (trim (substring (last ts) 5))))"
  by (simp add: parseAnkiCards_def multiLineLoop_eq parseBlock_def foldl_classifyLine_question
      foldl_classifyLine_answer foldl_classifyLine_annotation foldl_classifyLine_tags
      emptyCard_def Let_def)

theorem multiLine_last_marker_wins_witness:
  "isMultiLineFormat (str ''Q: a'' @ [LF] @ str ''Q: b'' @ [LF] @ str ''A: c'' @ [LF] @ str ''A: d'') \<and>
   parseAnkiCards (str ''Q: a'' @ [LF] @ str ''Q: b'' @ [LF] @ str ''A: c'' @ [LF] @ str ''A: d'')
     = Inr [\<lparr>question = str ''b'', answer = str ''d'', annotation = None, tags = None\<rparr>]"
proof -
  define t where "t = str ''Q: a'' @ [LF] @ str ''Q: b'' @ [LF] @ str ''A: c'' @ [LF] @ str ''A: d''"
  have m: "isMultiLineFormat t"
    by (simp add: t_def eval_all)
  have b: "cardBlocks t = [t]"
    by (simp add: t_def eval_all)
  have p: "parseBlock t = \<lparr>question = str ''b'', answer = str ''d'', annotation = None, tags = None\<rparr>"
    by (simp add: t_def eval_all)
  have "parseAnkiCards t =
        Inr [\<lparr>question = str ''b'', answer = str ''d'', annotation = None, tags = None\<rparr>]"
    using multiLine_last_marker_wins[of t] m by (simp add: b p str_def)
  with m show ?thesis unfolding t_def by blast
qed

section \<open>Cards without a question or an answer\<close>

lemma trim_nonempty_hd:
  assumes "trim s \<noteq> []"
  shows "\<not> isWhiteSpace (hd (trim s))"
proof -
  have n: "dropWhile isWhiteSpace s \<noteq> []" using assms by (auto simp: trim_def dest: set_dropWhileD)
  then have h: "\<not> isWhiteSpace (hd (dropWhile isWhiteSpace s))" by (rule hd_dropWhile)
  obtain a t where at: "dropWhile isWhiteSpace s = a # t"
    using n by (cases "dropWhile isWhiteSpace s") auto
  with h have na: "\<not> isWhiteSpace a" by simp
  have "trim s = rev (dropWhile isWhiteSpace (rev (a # t)))" by (simp add: trim_def at)
  also have "\<dots> = rev (dropWhile isWhiteSpace (rev t) @ [a])"
    using na by (simp add: dropWhile_append3)
  finally show ?thesis using na by simp
qed

lemma splitLit_hd:
  "splitLit sep acc s \<noteq> [] \<and> prefix (rev acc) (hd (splitLit sep acc s))"
proof (induction sep acc s rule: splitLit.induct)
  case (1 sep acc)
  then show ?case by simp
next
  case (2 sep acc x xs)
  show ?case
  proof (cases "sep \<noteq> [] \<and> prefix sep (x # xs)")
    case True
    then show ?thesis by simp
  next
    case False
    with 2(2) have "splitLit sep (x # acc) xs \<noteq> []"
      and "prefix (rev (x # acc)) (hd (splitLit sep (x # acc) xs))" by auto
    then show ?thesis using False by (auto dest: append_prefixD)
  qed
qed

lemma splitLoop_hd:
  "splitLoop r q acc s \<noteq> [] \<and> prefix (rev acc) (hd (splitLoop r q acc s))"
proof (induction r q acc s rule: splitLoop.induct)
  case (1 r q acc)
  then show ?case by simp
next
  case (2 r q acc x xs)
  show ?case
  proof (cases "ms r (q, x # xs, Map.empty)")
    case Nil
    with 2(1) have "splitLoop r (Suc q) (x # acc) xs \<noteq> []"
      and "prefix (rev (x # acc)) (hd (splitLoop r (Suc q) (x # acc) xs))" by auto
    then show ?thesis using Nil by (auto dest: append_prefixD)
  next
    case (Cons m rest)
    show ?thesis
    proof (cases "fst m \<le> q \<and> acc = []")
      case True
      with 2(2)[OF Cons] have "splitLoop r (Suc q) [x] xs \<noteq> []" by auto
      then show ?thesis using Cons True by simp
    next
      case False
      then show ?thesis using Cons by auto
    qed
  qed
qed

lemma first_piece_not_blank:
  assumes "parts \<noteq> []" and "prefix [x] (hd parts)" and "\<not> isWhiteSpace x"
  shows "trimAt parts 0 = Inr (trim (hd parts)) \<and> trim (hd parts) \<noteq> []"
proof -
  have "x \<in> set (hd parts)" using assms(2) by (auto simp: prefix_def)
  then have "trim (hd parts) \<noteq> []" using assms(3) by (auto simp: trim_eq_Nil_iff)
  then show ?thesis using assms(1) by (simp add: trimAt_def hd_conv_nth)
qed

lemma isWhiteSpace_TAB: "isWhiteSpace TAB"
  by (simp add: isWhiteSpace_def TAB_def)

lemma tableRow_parts_hd:
  assumes "line \<noteq> []" and "\<not> isWhiteSpace (hd line)"
  defines "parts \<equiv> (if TAB \<in> set line then split line [TAB]
                     else regexSplit line columnSeparator)"
  shows "parts \<noteq> [] \<and> prefix [hd line] (hd parts)"
proof -
  obtain x xs where l: "line = x # xs" using assms(1) by (cases line) auto
  have nx: "\<not> isWhiteSpace x" using assms(2) l by simp
  then have xt: "x \<noteq> TAB" using isWhiteSpace_TAB by auto
  have a: "split line [TAB] = splitLit [TAB] [x] xs"
    using xt by (simp add: split_def l)
  have "ms columnSeparator (0, x # xs, Map.empty) = []"
    using nx by (simp add: columnSeparator_def seqs_def ms_Seq_Atom_Cons)
  then have b: "regexSplit line columnSeparator = splitLoop columnSeparator (Suc 0) [x] xs"
    by (simp add: regexSplit_def l)
  show ?thesis
    using splitLit_hd[of "[TAB]" "[x]" xs] splitLoop_hd[of columnSeparator "Suc 0" "[x]" xs]
    unfolding parts_def a b by (simp add: l)
qed

lemma tableRow_total: "\<exists>r. tableRow l = Inr r"
  by (simp add: tableRow_def Let_def trimAt_def andThen_def)

lemma tableRow_question:
  assumes "tableRow l = Inr (Some cd)"
  shows "question cd \<noteq> []"
proof -
  let ?line = "trim l"
  let ?parts = "if TAB \<in> set ?line then split ?line [TAB] else regexSplit ?line columnSeparator"
  from assms have ne: "?line \<noteq> []"
    by (auto simp: tableRow_def Let_def)
  then have "\<not> isWhiteSpace (hd ?line)" by (rule trim_nonempty_hd)
  with ne have "?parts \<noteq> [] \<and> prefix [hd ?line] (hd ?parts)" by (rule tableRow_parts_hd)
  then have q: "trimAt ?parts 0 = Inr (trim (hd ?parts)) \<and> trim (hd ?parts) \<noteq> []"
    using first_piece_not_blank[of ?parts "hd ?line"] \<open>\<not> isWhiteSpace (hd ?line)\<close> by blast
  from assms ne have "question cd = trim (hd ?parts)"
    using q by (auto simp: tableRow_def Let_def andThen_def trimAt_def split: if_splits)
  with q show ?thesis by simp
qed

lemma tableLoop_total: "\<exists>res. tableLoop ls cards = Inr res"
proof (induction ls arbitrary: cards)
  case Nil
  then show ?case by simp
next
  case (Cons l ls)
  obtain r where "tableRow l = Inr r" using tableRow_total by blast
  then show ?case using Cons by (simp add: andThen_def)
qed

lemma tableLoop_questions:
  assumes "tableLoop ls cards = Inr res" and "\<forall>cd\<in>set cards. question cd \<noteq> []"
  shows "\<forall>cd\<in>set res. question cd \<noteq> []"
  using assms
proof (induction ls arbitrary: cards)
  case Nil
  then show ?case by simp
next
  case (Cons l ls)
  obtain r where r: "tableRow l = Inr r" using tableRow_total by blast
  show ?case
  proof (cases r)
    case None
    with Cons r show ?thesis by (simp add: andThen_def)
  next
    case (Some cd)
    with r have "question cd \<noteq> []" by (simp add: tableRow_question)
    with Cons.prems(2) have "\<forall>c\<in>set (cards @ [cd]). question c \<noteq> []" by simp
    moreover from Cons.prems(1) r Some have "tableLoop ls (cards @ [cd]) = Inr res"
      by (simp add: andThen_def)
    ultimately show ?thesis by (rule Cons.IH[rotated])
  qed
qed

lemma multiLineLoop_complete:
  "\<forall>cd\<in>set (multiLineLoop blocks []). question cd \<noteq> [] \<and> answer cd \<noteq> []"
  by (auto simp: multiLineLoop_eq)

text \<open>
  Claim C1, as amended. Every card that \<open>parseAnkiCards\<close> returns through the multi-line
  branch has a non-empty question and a non-empty answer, and every card it returns
  through the table branch has a non-empty question. (The table branch emits a card for
  every row with two columns, whatever the second column holds, and the line-oriented
  branch emits a card for every line that matches, so an answer can be empty in the
  table branch and both fields can be empty in the line-oriented branch.)
\<close>

theorem parse_cards_complete:
  "(isMultiLineFormat text \<longrightarrow>
      (\<exists>cards. parseAnkiCards text = Inr cards \<and>
         (\<forall>cd\<in>set cards. question cd \<noteq> [] \<and> answer cd \<noteq> []))) \<and>
   (\<not> isMultiLineFormat text \<and> textLines text \<noteq> [] \<and>
    isTableFormat (trim (hd (textLines text))) \<longrightarrow>
      (\<exists>cards. parseAnkiCards text = Inr cards \<and> (\<forall>cd\<in>set cards. question cd \<noteq> [])))"
proof (intro conjI impI)
  assume "isMultiLineFormat text"
  then show "\<exists>cards. parseAnkiCards text = Inr cards \<and>
         (\<forall>cd\<in>set cards. question cd \<noteq> [] \<and> answer cd \<noteq> [])"
    using multiLineLoop_complete by (simp add: parseAnkiCards_def)
next
  assume a: "\<not> isMultiLineFormat text \<and> textLines text \<noteq> [] \<and>
    isTableFormat (trim (hd (textLines text)))"
  obtain res where res: "tableLoop (drop 1 (textLines text)) [] = Inr res"
    using tableLoop_total by blast
  then have "\<forall>cd\<in>set res. question cd \<noteq> []"
    by (rule tableLoop_questions) simp
  moreover have "trim (textLines text ! 0) = trim (hd (textLines text))"
    using a by (simp add: hd_conv_nth)
  then have "parseAnkiCards text = Inr res"
    using a res by (simp add: parseAnkiCards_def Let_def trimAt_def andThen_def)
  ultimately show "\<exists>cards. parseAnkiCards text = Inr cards \<and> (\<forall>cd\<in>set cards. question cd \<noteq> [])"
    by blast
qed

theorem parse_cards_complete_witness:
  "isMultiLineFormat (str ''Q: x'' @ [LF] @ str ''A: y'') \<and>
   (\<exists>cards. parseAnkiCards (str ''Q: x'' @ [LF] @ str ''A: y'') = Inr cards \<and>
      (\<forall>cd\<in>set cards. question cd \<noteq> [] \<and> answer cd \<noteq> [])) \<and>
   \<not> isMultiLineFormat (str ''Q  A  annotation  tags'' @ [LF] @ str ''foo  bar'') \<and>
   textLines (str ''Q  A  annotation  tags'' @ [LF] @ str ''foo  bar'') \<noteq> [] \<and>
   isTableFormat (trim (hd (textLines (str ''Q  A  annotation  tags'' @ [LF] @ str ''foo  bar'')))) \<and>
   (\<exists>cards. parseAnkiCards (str ''Q  A  annotation  tags'' @ [LF] @ str ''foo  bar'') = Inr cards \<and>
      (\<forall>cd\<in>set cards. question cd \<noteq> []))"
proof -
  define t where "t = str ''Q: x'' @ [LF] @ str ''A: y''"
  define u where "u = str ''Q  A  annotation  tags'' @ [LF] @ str ''foo  bar''"
  have m: "isMultiLineFormat t"
    by (simp add: t_def eval_all)
  have n: "\<not> isMultiLineFormat u"
    by (simp add: u_def eval_all)
  have l: "textLines u = [str ''Q  A  annotation  tags'', str ''foo  bar'']"
    by (simp add: u_def textLines_def split_def trim_def char_defs)
  have h: "isTableFormat (trim (str ''Q  A  annotation  tags''))"
    by (simp add: eval_all)
  from parse_cards_complete[of t] m
  have 1: "\<exists>cards. parseAnkiCards t = Inr cards \<and>
      (\<forall>cd\<in>set cards. question cd \<noteq> [] \<and> answer cd \<noteq> [])" by blast
  from parse_cards_complete[of u] n l h
  have 2: "\<exists>cards. parseAnkiCards u = Inr cards \<and> (\<forall>cd\<in>set cards. question cd \<noteq> [])"
    by simp
  from m 1 n l h 2 show ?thesis unfolding t_def u_def by simp
qed

theorem parse_incomplete_cards_counterexample:
  "parseAnkiCards (str ''Q: x A:'')
     = Inr [\<lparr>question = str ''x'', answer = [], annotation = None, tags = None\<rparr>] \<and>
   parseAnkiCards (str '':::'')
     = Inr [\<lparr>question = [], answer = [], annotation = None, tags = None\<rparr>] \<and>
   parseAnkiCards (str ''Q'' @ [TAB] @ str ''A'' @ [TAB] @ str ''annotation'' @ [TAB] @ str ''tags''
                   @ [LF] @ str ''foo'' @ [TAB, TAB] @ str ''note'')
     = Inr [\<lparr>question = str ''foo'', answer = [], annotation = Some (str ''note''), tags = None\<rparr>]"
  by (simp add: eval_all)

section \<open>Lower-case markers in a block\<close>

text \<open>
  Claim C2. The detection of the multi-line format ignores the case of the markers, but
  the classification of the lines of a block by \<^verbatim>\<open>startsWith\<close> does not: the text
  \<^verbatim>\<open>q: x\<close>, \<^verbatim>\<open>a: y\<close> selects the multi-line branch, none of its lines is classified, and
  no card is returned, whereas \<^verbatim>\<open>Q: x\<close>, \<^verbatim>\<open>A: y\<close> gives the card.
\<close>

theorem lowercase_markers_not_classified:
  "isMultiLineFormat (str ''q: x'' @ [LF] @ str ''a: y'') \<and>
   classifyLine emptyCard (str ''q: x'') = emptyCard \<and>
   classifyLine emptyCard (str ''a: y'') = emptyCard \<and>
   parseAnkiCards (str ''q: x'' @ [LF] @ str ''a: y'') = Inr [] \<and>
   parseAnkiCards (str ''Q: x'' @ [LF] @ str ''A: y'')
     = Inr [\<lparr>question = str ''x'', answer = str ''y'', annotation = None, tags = None\<rparr>]"
  by (simp add: eval_all)

section \<open>Searching for a match\<close>

lemma execFrom_None_iff:
  "execFrom r i s = None \<longleftrightarrow> (\<forall>p t. s = p @ t \<longrightarrow> ms r (i + length p, t, Map.empty) = [])"
proof (induction s arbitrary: i)
  case Nil
  then show ?case by (simp split: list.splits)
next
  case (Cons x xs)
  have "(\<forall>p t. x # xs = p @ t \<longrightarrow> ms r (i + length p, t, Map.empty) = []) \<longleftrightarrow>
        ms r (i, x # xs, Map.empty) = [] \<and>
        (\<forall>p t. xs = p @ t \<longrightarrow> ms r (Suc i + length p, t, Map.empty) = [])"
  proof (intro iffI conjI allI impI)
    assume a: "\<forall>p t. x # xs = p @ t \<longrightarrow> ms r (i + length p, t, Map.empty) = []"
    from a[rule_format, of "[]" "x # xs"] show "ms r (i, x # xs, Map.empty) = []" by simp
    fix p t assume "xs = p @ t"
    with a[rule_format, of "x # p" t] show "ms r (Suc i + length p, t, Map.empty) = []" by simp
  next
    fix p t
    assume a: "ms r (i, x # xs, Map.empty) = [] \<and>
        (\<forall>p t. xs = p @ t \<longrightarrow> ms r (Suc i + length p, t, Map.empty) = [])"
      and e: "x # xs = p @ t"
    show "ms r (i + length p, t, Map.empty) = []"
    proof (cases p)
      case Nil
      with a e show ?thesis by simp
    next
      case (Cons y p')
      with e have "xs = p' @ t" by simp
      with a Cons show ?thesis by simp
    qed
  qed
  with Cons show ?case by (simp split: list.splits)
qed

lemma regexTest_iff:
  "regexTest r s \<longleftrightarrow> (\<exists>p t. s = p @ t \<and> ms r (length p, t, Map.empty) \<noteq> [])"
  using execFrom_None_iff[of r 0 s] by (auto simp: regexTest_def)

lemma regexMatch_None_iff:
  "regexMatch r s = None \<longleftrightarrow> (\<forall>p t. s = p @ t \<longrightarrow> ms r (length p, t, Map.empty) = [])"
  using execFrom_None_iff[of r 0 s] by (simp add: regexMatch_def)

subsection \<open>Literals under the flag i\<close>

lemma canonicalize_Q: "canonicalize x = canonicalize 0x51 \<longleftrightarrow> x = 0x51 \<or> x = 0x71"
  by (auto simp: canonicalize_def diff_eq_eq)

lemma canonicalize_A: "canonicalize x = canonicalize 0x41 \<longleftrightarrow> x = 0x41 \<or> x = 0x61"
  by (auto simp: canonicalize_def diff_eq_eq)

lemma canonicalize_colon: "canonicalize x = canonicalize 0x3A \<longleftrightarrow> x = 0x3A"
  by (auto simp: canonicalize_def diff_eq_eq)

lemma canonicalize_LF: "canonicalize x = canonicalize 0x0A \<longleftrightarrow> x = 0x0A"
  by (auto simp: canonicalize_def diff_eq_eq)

lemmas canonicalize_lits = canonicalize_Q canonicalize_A canonicalize_colon canonicalize_LF

subsection \<open>When a sequence has no match\<close>

lemma ms_Seq_Atom_Nil_iff:
  "ms (Seq (Atom a) r) (i, xs, c) = [] \<longleftrightarrow>
     (\<forall>x xs'. xs = x # xs' \<longrightarrow> chset_match a x \<longrightarrow> ms r (Suc i, xs', c) = [])"
  by (cases xs) (simp_all add: ms_Seq_Atom_Nil ms_Seq_Atom_Cons)

lemma ms_Seq_Star_Atom_Nil_iff:
  "ms (Seq (Star (Atom a)) r) (i, xs, c) = [] \<longleftrightarrow>
     (\<forall>m rest. xs = m @ rest \<longrightarrow> (\<forall>x\<in>set m. chset_match a x) \<longrightarrow>
        ms r (i + length m, rest, c) = [])"
proof (induction xs arbitrary: i)
  case Nil
  then show ?case by (simp add: ms_Seq_Star_Atom_Nil)
next
  case (Cons x xs)
  have "(\<forall>m rest. x # xs = m @ rest \<longrightarrow> (\<forall>y\<in>set m. chset_match a y) \<longrightarrow>
            ms r (i + length m, rest, c) = []) \<longleftrightarrow>
        ms r (i, x # xs, c) = [] \<and>
        (chset_match a x \<longrightarrow>
           (\<forall>m rest. xs = m @ rest \<longrightarrow> (\<forall>y\<in>set m. chset_match a y) \<longrightarrow>
              ms r (Suc i + length m, rest, c) = []))"
  proof (intro iffI conjI allI impI)
    assume a: "\<forall>m rest. x # xs = m @ rest \<longrightarrow> (\<forall>y\<in>set m. chset_match a y) \<longrightarrow>
            ms r (i + length m, rest, c) = []"
    from a[rule_format, of "[]" "x # xs"] show "ms r (i, x # xs, c) = []" by simp
    fix m rest
    assume "chset_match a x" "xs = m @ rest" "\<forall>y\<in>set m. chset_match a y"
    with a[rule_format, of "x # m" rest] show "ms r (Suc i + length m, rest, c) = []" by auto
  next
    fix m rest
    assume a: "ms r (i, x # xs, c) = [] \<and>
        (chset_match a x \<longrightarrow>
           (\<forall>m rest. xs = m @ rest \<longrightarrow> (\<forall>y\<in>set m. chset_match a y) \<longrightarrow>
              ms r (Suc i + length m, rest, c) = []))"
      and e: "x # xs = m @ rest" and d: "\<forall>y\<in>set m. chset_match a y"
    show "ms r (i + length m, rest, c) = []"
    proof (cases m)
      case Nil
      with a e show ?thesis by simp
    next
      case (Cons y m')
      with e d have "xs = m' @ rest" "chset_match a x" "\<forall>y\<in>set m'. chset_match a y" by auto
      with a Cons show ?thesis by simp
    qed
  qed
  moreover have "ms (Seq (Star (Atom a)) r) (i, x # xs, c) = [] \<longleftrightarrow>
        ms r (i, x # xs, c) = [] \<and>
        (chset_match a x \<longrightarrow> ms (Seq (Star (Atom a)) r) (Suc i, xs, c) = [])"
    by (auto simp: ms_Seq_Star_Atom_Cons)
  ultimately show ?case unfolding Cons.IH[of "Suc i"] by blast
qed

lemma ms_Empty_not_Nil: "ms Empty s \<noteq> []"
  by (simp add: ms.simps)

section \<open>The detection of the multi-line format\<close>

lemma ms_Seq_Opt_not_Nil: "ms r s \<noteq> [] \<Longrightarrow> ms (Seq (Opt g) r) s \<noteq> []"
  by (simp add: Opt_def ms_Seq_Alt ms_Seq_Empty)

lemma ms_Seq_Star_not_Nil: "ms r s \<noteq> [] \<Longrightarrow> ms (Seq (Star g) r) s \<noteq> []"
proof -
  assume "ms r s \<noteq> []"
  moreover have "s \<in> set (ms (Star g) s)" by (rule ms_Star_mem)
  ultimately show ?thesis by (auto simp: ms.simps(3))
qed

lemma multiLinePattern_tail:
  "ms (Seq (Star (Atom Dot)) (Seq (Opt g1) (Seq (Opt g2) Empty))) s \<noteq> []"
  by (intro ms_Seq_Star_not_Nil ms_Seq_Opt_not_Nil ms_Empty_not_Nil)

lemma liti_Nil: "liti [] = Empty"
  by (simp add: liti_def seqs_def)

lemma liti_Cons: "liti (a # s) = Seq (Atom (ChI a)) (liti s)"
  by (simp add: liti_def seqs_def)

lemma ms_Seq_liti1:
  "ms (Seq (liti [a]) r) (i, t, c) \<noteq> [] \<longleftrightarrow>
     (\<exists>x t'. t = x # t' \<and> canonicalize x = canonicalize a \<and> ms r (Suc i, t', c) \<noteq> [])"
  by (simp add: liti_Cons liti_Nil ms_Seq_assoc ms_Seq_Empty ms_Seq_Atom_Nil_iff)

lemma ms_Seq_liti2:
  "ms (Seq (liti [a, b]) r) (i, t, c) \<noteq> [] \<longleftrightarrow>
     (\<exists>x y t'. t = x # y # t' \<and> canonicalize x = canonicalize a \<and>
        canonicalize y = canonicalize b \<and> ms r (Suc (Suc i), t', c) \<noteq> [])"
proof -
  have "ms (Seq (liti [a, b]) r) (i, t, c) \<noteq> [] \<longleftrightarrow>
     (\<exists>x t1. t = x # t1 \<and> canonicalize x = canonicalize a \<and>
        (\<exists>y t'. t1 = y # t' \<and> canonicalize y = canonicalize b \<and>
           ms r (Suc (Suc i), t', c) \<noteq> []))"
    by (simp add: liti_Cons liti_Nil ms_Seq_assoc ms_Seq_Empty ms_Seq_Atom_Nil_iff)
  then show ?thesis by blast
qed

lemma ms_Seq_Star_Atom_iff:
  "ms (Seq (Star (Atom a)) r) (i, xs, c) \<noteq> [] \<longleftrightarrow>
     (\<exists>m rest. xs = m @ rest \<and> (\<forall>x\<in>set m. chset_match a x) \<and>
        ms r (i + length m, rest, c) \<noteq> [])"
  unfolding ms_Seq_Star_Atom_Nil_iff by blast

lemma multiLinePattern_at:
  "ms multiLinePattern (i, t, c) \<noteq> [] \<longleftrightarrow>
     (\<exists>q m a r. t = [q, 0x3A] @ m @ [LF, a, 0x3A] @ r \<and> (q = 0x51 \<or> q = 0x71) \<and>
        (a = 0x41 \<or> a = 0x61) \<and> (\<forall>x\<in>set m. \<not> isLineTerminator x))"
proof -
  define tl where "tl = Seq (Star (Atom Dot))
     (Seq (Opt (Group 1 (seqs [liti [LF], liti (str ''annotation:''), Star (Atom Dot)])))
        (Seq (Opt (Group 2 (seqs [liti [LF], liti (str ''tags:''), Star (Atom Dot)]))) Empty))"
  have tl: "ms tl s \<noteq> []" for s
    unfolding tl_def by (rule multiLinePattern_tail)
  have u: "multiLinePattern =
        Seq (liti [0x51, 0x3A]) (Seq (Star (Atom Dot)) (Seq (liti [0x0A]) (Seq (liti [0x41, 0x3A]) tl)))"
    unfolding tl_def multiLinePattern_def by (simp add: seqs_def str_def LF_def)
  have after: "ms (Seq (liti [0x0A]) (Seq (liti [0x41, 0x3A]) tl)) (j, rest, c) \<noteq> [] \<longleftrightarrow>
        (\<exists>a r. rest = [LF, a, 0x3A] @ r \<and> (a = 0x41 \<or> a = 0x61))" for j rest
    using tl by (auto simp: ms_Seq_liti1 ms_Seq_liti2 canonicalize_lits LF_def)
  have star: "ms (Seq (Star (Atom Dot)) (Seq (liti [0x0A]) (Seq (liti [0x41, 0x3A]) tl)))
             (j, t2, c) \<noteq> [] \<longleftrightarrow>
        (\<exists>m rest. t2 = m @ rest \<and> (\<forall>x\<in>set m. \<not> isLineTerminator x) \<and>
              (\<exists>a r. rest = [LF, a, 0x3A] @ r \<and> (a = 0x41 \<or> a = 0x61)))" for j t2
    unfolding ms_Seq_Star_Atom_iff after by simp
  have "ms multiLinePattern (i, t, c) \<noteq> [] \<longleftrightarrow>
        (\<exists>q y t2. t = q # y # t2 \<and> canonicalize q = canonicalize 0x51 \<and>
           canonicalize y = canonicalize 0x3A \<and>
           ms (Seq (Star (Atom Dot)) (Seq (liti [0x0A]) (Seq (liti [0x41, 0x3A]) tl)))
             (Suc (Suc i), t2, c) \<noteq> [])"
    unfolding u by (rule ms_Seq_liti2)
  also have "\<dots> \<longleftrightarrow>
        (\<exists>q y t2. t = q # y # t2 \<and> (q = 0x51 \<or> q = 0x71) \<and> y = 0x3A \<and>
           (\<exists>m rest. t2 = m @ rest \<and> (\<forall>x\<in>set m. \<not> isLineTerminator x) \<and>
              (\<exists>a r. rest = [LF, a, 0x3A] @ r \<and> (a = 0x41 \<or> a = 0x61))))"
    unfolding star canonicalize_lits by (rule refl)
  also have "\<dots> \<longleftrightarrow>
        (\<exists>q m a r. t = [q, 0x3A] @ m @ [LF, a, 0x3A] @ r \<and> (q = 0x51 \<or> q = 0x71) \<and>
        (a = 0x41 \<or> a = 0x61) \<and> (\<forall>x\<in>set m. \<not> isLineTerminator x))"
    by (simp only: append_Cons append_Nil) blast
  finally show ?thesis .
qed

text \<open>
  Claim C3, as amended. The multi-line format is selected exactly when the text contains
  \<^verbatim>\<open>Q:\<close> at any place of a line, in either case, with nothing but characters other than
  line terminators up to the next line feed, and \<^verbatim>\<open>A:\<close>, in either case, directly after
  that line feed. The \<^verbatim>\<open>annotation:\<close> and \<^verbatim>\<open>tags:\<close> lines that the pattern allows come
  after the \<^verbatim>\<open>A:\<close> line and do not change the decision.
\<close>

theorem isMultiLineFormat_iff:
  "isMultiLineFormat text \<longleftrightarrow>
     (\<exists>p qm m am r. text = p @ qm @ m @ [LF] @ am @ r \<and>
        (qm = str ''Q:'' \<or> qm = str ''q:'') \<and> (am = str ''A:'' \<or> am = str ''a:'') \<and>
        (\<forall>x\<in>set m. \<not> isLineTerminator x))"
proof -
  have "isMultiLineFormat text \<longleftrightarrow>
     (\<exists>p q m a r. text = p @ [q, 0x3A] @ m @ [LF, a, 0x3A] @ r \<and>
        (q = 0x51 \<or> q = 0x71) \<and> (a = 0x41 \<or> a = 0x61) \<and>
        (\<forall>x\<in>set m. \<not> isLineTerminator x))"
    unfolding isMultiLineFormat_def regexTest_iff multiLinePattern_at by blast
  also have "\<dots> \<longleftrightarrow>
     (\<exists>p qm m am r. text = p @ qm @ m @ [LF] @ am @ r \<and>
        (qm = [0x51, 0x3A] \<or> qm = [0x71, 0x3A]) \<and> (am = [0x41, 0x3A] \<or> am = [0x61, 0x3A]) \<and>
        (\<forall>x\<in>set m. \<not> isLineTerminator x))"
    (is "?L \<longleftrightarrow> ?R")
  proof
    assume ?L
    then obtain p q m a r where "text = p @ [q, 0x3A] @ m @ [LF] @ [a, 0x3A] @ r"
      "q = 0x51 \<or> q = 0x71" "a = 0x41 \<or> a = 0x61" "\<forall>x\<in>set m. \<not> isLineTerminator x"
      by auto
    then show ?R by blast
  next
    assume ?R
    then obtain p qm m am r where t: "text = p @ qm @ m @ [LF] @ am @ r"
      and q: "qm = [0x51, 0x3A] \<or> qm = [0x71, 0x3A]" and a: "am = [0x41, 0x3A] \<or> am = [0x61, 0x3A]"
      and m: "\<forall>x\<in>set m. \<not> isLineTerminator x" by blast
    from q obtain q' where q': "qm = [q', 0x3A]" "q' = 0x51 \<or> q' = 0x71" by blast
    from a obtain a' where a': "am = [a', 0x3A]" "a' = 0x41 \<or> a' = 0x61" by blast
    have "text = p @ [q', 0x3A] @ m @ [LF, a', 0x3A] @ r" using t q' a' by simp
    with q' a' m show ?L by blast
  qed
  finally show ?thesis by (simp add: str_def)
qed

theorem isMultiLineFormat_iff_witness:
  "isMultiLineFormat (str ''see Q: x'' @ [LF] @ str ''A: y'') \<and>
   str ''see Q: x'' @ [LF] @ str ''A: y'' = str ''see '' @ str ''Q:'' @ str '' x'' @ [LF] @ str ''A:'' @ str '' y''"
proof -
  have e: "str ''see Q: x'' @ [LF] @ str ''A: y''
        = str ''see '' @ str ''Q:'' @ str '' x'' @ [LF] @ str ''A:'' @ str '' y''"
    by (simp add: str_def)
  have "\<forall>x\<in>set (str '' x''). \<not> isLineTerminator x"
    by (simp add: str_def isLineTerminator_def)
  with e have "\<exists>p qm m am r. str ''see Q: x'' @ [LF] @ str ''A: y'' = p @ qm @ m @ [LF] @ am @ r \<and>
        (qm = str ''Q:'' \<or> qm = str ''q:'') \<and> (am = str ''A:'' \<or> am = str ''a:'') \<and>
        (\<forall>x\<in>set m. \<not> isLineTerminator x)" by blast
  then have "isMultiLineFormat (str ''see Q: x'' @ [LF] @ str ''A: y'')"
    by (simp only: isMultiLineFormat_iff)
  with e show ?thesis by blast
qed

theorem isMultiLineFormat_counterexample:
  "\<not> isMultiLineFormat (str ''Q: x'' @ [LF] @ str ''annotation: n'' @ [LF] @ str ''A: y'') \<and>
   isMultiLineFormat (str ''see Q: x'' @ [LF] @ str ''A: y'')"
  by (simp add: eval_all)

section \<open>Blocks of non-blank lines\<close>

lemma isWhiteSpace_LF: "isWhiteSpace LF"
  by (simp add: isWhiteSpace_def LF_def)

lemma blockSeparator_not_LF: "x \<noteq> LF \<Longrightarrow> ms blockSeparator (q, x # xs, c) = []"
  by (simp add: blockSeparator_def seqs_def lit_def ms_Seq_assoc ms_Seq_Atom_Cons)

lemma blockSeparator_LF_line:
  "\<not> isWhiteSpace y \<Longrightarrow> ms blockSeparator (q, LF # y # ys, c) = []"
  using isWhiteSpace_LF
  by (auto simp: blockSeparator_def seqs_def lit_def Plus_def ms_Seq_assoc ms_Seq_Empty
      ms_Seq_Atom_Cons ms_Seq_Star_Atom_Cons)

lemma blockSeparator_blank_line:
  "\<not> isWhiteSpace y \<Longrightarrow> ms blockSeparator (q, LF # LF # y # ys, c) = [(Suc (Suc q), y # ys, c)]"
  using isWhiteSpace_LF
  by (auto simp: blockSeparator_def seqs_def lit_def Plus_def ms_Seq_assoc ms_Seq_Empty
      ms_Seq_Empty2 ms_Seq_Atom_Cons ms_Seq_Star_Atom_Cons ms_Star_Atom_Cons)

lemma splitLoop_blockSeparator_skip:
  "LF \<notin> set u \<Longrightarrow>
   splitLoop blockSeparator q acc (u @ v) = splitLoop blockSeparator (q + length u) (rev u @ acc) v"
proof (induction u arbitrary: q acc)
  case Nil
  then show ?case by simp
next
  case (Cons a u)
  then have "a \<noteq> LF" by auto
  then have "ms blockSeparator (q, a # u @ v, Map.empty) = []" by (rule blockSeparator_not_LF)
  then have "splitLoop blockSeparator q acc ((a # u) @ v) =
             splitLoop blockSeparator (Suc q) (a # acc) (u @ v)" by simp
  also have "\<dots> = splitLoop blockSeparator (Suc q + length u) (rev u @ a # acc) v"
    using Cons by simp
  finally show ?case by simp
qed

lemma goodLine_hd: "goodLine l \<Longrightarrow> \<exists>y ys. l = y # ys \<and> \<not> isWhiteSpace y"
  by (cases l) (auto simp: goodLine_def trim_fixed_iff)

lemma joinLines_Cons: "ls \<noteq> [] \<Longrightarrow> joinLines (l # ls) = l @ LF # joinLines ls"
  by (cases ls) simp_all

lemma joinLines_hd:
  assumes "ls \<noteq> []" and "\<forall>l\<in>set ls. goodLine l"
  shows "\<exists>y ys. joinLines ls = y # ys \<and> \<not> isWhiteSpace y"
proof (cases ls)
  case Nil
  with assms show ?thesis by simp
next
  case (Cons l ls')
  with assms(2) have "goodLine l" by simp
  then obtain y ys where "l = y # ys" "\<not> isWhiteSpace y"
    using goodLine_hd by blast
  then show ?thesis using Cons by (cases ls') auto
qed

lemma splitLoop_blockSeparator_lines:
  assumes "ls \<noteq> []" and "\<forall>l\<in>set ls. goodLine l"
  shows "splitLoop blockSeparator q acc (joinLines ls @ v) =
         splitLoop blockSeparator (q + length (joinLines ls)) (rev (joinLines ls) @ acc) v"
  using assms
proof (induction ls arbitrary: q acc)
  case Nil
  then show ?case by simp
next
  case (Cons l ls)
  have l: "LF \<notin> set l" using Cons.prems(2) by (simp add: goodLine_def)
  show ?case
  proof (cases "ls = []")
    case True
    then show ?thesis using l by (simp add: splitLoop_blockSeparator_skip)
  next
    case False
    with Cons.prems(2) obtain y ys where j: "joinLines ls = y # ys" and y: "\<not> isWhiteSpace y"
      using joinLines_hd[of ls] by auto
    have "splitLoop blockSeparator q acc (joinLines (l # ls) @ v) =
          splitLoop blockSeparator (q + length l) (rev l @ acc) (LF # joinLines ls @ v)"
      using False l by (simp add: joinLines_Cons splitLoop_blockSeparator_skip)
    also have "\<dots> = splitLoop blockSeparator (Suc (q + length l)) (LF # rev l @ acc) (joinLines ls @ v)"
      using y by (simp add: j blockSeparator_LF_line)
    also have "\<dots> = splitLoop blockSeparator (Suc (q + length l) + length (joinLines ls))
                        (rev (joinLines ls) @ LF # rev l @ acc) v"
      using False Cons.prems(2) by (intro Cons.IH) simp_all
    finally show ?thesis using False by (simp add: joinLines_Cons ac_simps)
  qed
qed

lemma regexSplit_one_block:
  assumes "ls \<noteq> []" and "\<forall>l\<in>set ls. goodLine l"
  shows "regexSplit (joinLines ls) blockSeparator = [joinLines ls]"
proof -
  obtain y ys where "joinLines ls = y # ys" using joinLines_hd[OF assms] by blast
  then have "regexSplit (joinLines ls) blockSeparator = splitLoop blockSeparator 0 [] (joinLines ls @ [])"
    by (simp add: regexSplit_def)
  also have "\<dots> = [joinLines ls]"
    unfolding splitLoop_blockSeparator_lines[OF assms] by simp
  finally show ?thesis .
qed

lemma regexSplit_two_blocks:
  assumes "ls1 \<noteq> []" and "\<forall>l\<in>set ls1. goodLine l" and "ls2 \<noteq> []" and "\<forall>l\<in>set ls2. goodLine l"
  shows "regexSplit (joinLines ls1 @ [LF, LF] @ joinLines ls2) blockSeparator
           = [joinLines ls1, joinLines ls2]"
proof -
  obtain y ys where 1: "joinLines ls1 = y # ys" using joinLines_hd[OF assms(1,2)] by blast
  obtain z zs where 2: "joinLines ls2 = z # zs" and z: "\<not> isWhiteSpace z"
    using joinLines_hd[OF assms(3,4)] by blast
  let ?n = "length (joinLines ls1)"
  have "regexSplit (joinLines ls1 @ [LF, LF] @ joinLines ls2) blockSeparator
        = splitLoop blockSeparator 0 [] (joinLines ls1 @ ([LF, LF] @ joinLines ls2))"
    using 1 by (simp add: regexSplit_def)
  also have "\<dots> = splitLoop blockSeparator ?n (rev (joinLines ls1)) (LF # LF # z # zs)"
    unfolding splitLoop_blockSeparator_lines[OF assms(1,2)] by (simp add: 2)
  also have "\<dots> = joinLines ls1 # splitLoop blockSeparator (Suc (Suc ?n)) [] (z # zs)"
    using z by (simp add: blockSeparator_blank_line)
  also have "splitLoop blockSeparator (Suc (Suc ?n)) [] (z # zs)
        = splitLoop blockSeparator (Suc (Suc ?n)) [] (joinLines ls2 @ [])"
    by (simp add: 2)
  also have "\<dots> = [joinLines ls2]"
    unfolding splitLoop_blockSeparator_lines[OF assms(3,4)] by simp
  finally show ?thesis .
qed

lemma splitLit_LF_skip:
  "LF \<notin> set u \<Longrightarrow> splitLit [LF] acc (u @ v) = splitLit [LF] (rev u @ acc) v"
  by (induction u arbitrary: acc) auto

lemma split_joinLines:
  assumes "ls \<noteq> []" and "\<forall>l\<in>set ls. LF \<notin> set l"
  shows "splitLit [LF] [] (joinLines ls) = ls"
  using assms
proof (induction ls)
  case Nil
  then show ?case by simp
next
  case (Cons l ls)
  show ?case
  proof (cases "ls = []")
    case True
    then show ?thesis using Cons.prems splitLit_LF_skip[of l "[]" "[]"] by simp
  next
    case False
    then have "splitLit [LF] [] (joinLines (l # ls)) = splitLit [LF] (rev l) (LF # joinLines ls)"
      using Cons.prems splitLit_LF_skip[of l "[]" "LF # joinLines ls"]
      by (simp add: joinLines_Cons)
    also have "\<dots> = l # splitLit [LF] [] (joinLines ls)" by simp
    finally show ?thesis using Cons False by simp
  qed
qed

lemma blockLines_joinLines:
  assumes "ls \<noteq> []" and "\<forall>l\<in>set ls. goodLine l"
  shows "blockLines (joinLines ls) = ls"
proof -
  have "split (joinLines ls) [LF] = ls"
    using assms split_joinLines[of ls] by (simp add: split_def goodLine_def)
  moreover have "map trim ls = ls" using assms(2) by (simp add: goodLine_def map_idI)
  moreover have "filter (\<lambda>line. line \<noteq> []) ls = ls" using assms(2) by (simp add: goodLine_def)
  ultimately show ?thesis by (simp add: blockLines_def)
qed

lemma trim_joinLines:
  assumes "ls \<noteq> []" and "\<forall>l\<in>set ls. goodLine l"
  shows "trim (joinLines ls) \<noteq> []"
proof -
  obtain y ys where "joinLines ls = y # ys" "\<not> isWhiteSpace y" using joinLines_hd[OF assms] by blast
  then show ?thesis by (auto simp: trim_eq_Nil_iff)
qed

lemma cardBlocks_one_block:
  assumes "ls \<noteq> []" and "\<forall>l\<in>set ls. goodLine l"
  shows "cardBlocks (joinLines ls) = [joinLines ls]"
  using regexSplit_one_block[OF assms] trim_joinLines[OF assms] by (simp add: cardBlocks_def)

lemma cardBlocks_two_blocks:
  assumes "ls1 \<noteq> []" and "\<forall>l\<in>set ls1. goodLine l" and "ls2 \<noteq> []" and "\<forall>l\<in>set ls2. goodLine l"
  shows "cardBlocks (joinLines ls1 @ [LF, LF] @ joinLines ls2) = [joinLines ls1, joinLines ls2]"
  using regexSplit_two_blocks[OF assms] trim_joinLines[OF assms(1,2)] trim_joinLines[OF assms(3,4)]
  by (simp add: cardBlocks_def)

lemma parseBlock_joinLines:
  assumes "ls \<noteq> []" and "\<forall>l\<in>set ls. goodLine l"
  shows "parseBlock (joinLines ls) = foldl classifyLine emptyCard ls"
  by (simp add: parseBlock_def blockLines_joinLines[OF assms])

section \<open>Well-formed blocks\<close>

lemma parse_one_block:
  assumes "ls \<noteq> []" and "\<forall>l\<in>set ls. goodLine l" and "isMultiLineFormat (joinLines ls)"
  shows "parseAnkiCards (joinLines ls) =
           Inr (let cd = foldl classifyLine emptyCard ls
                in if question cd \<noteq> [] \<and> answer cd \<noteq> [] then [cd] else [])"
  using assms(3)
  by (simp add: parseAnkiCards_def cardBlocks_one_block[OF assms(1,2)]
      parseBlock_joinLines[OF assms(1,2)] Let_def)

lemma parse_two_blocks:
  assumes "ls1 \<noteq> []" and "\<forall>l\<in>set ls1. goodLine l" and "ls2 \<noteq> []" and "\<forall>l\<in>set ls2. goodLine l"
    and "isMultiLineFormat (joinLines ls1 @ [LF, LF] @ joinLines ls2)"
  shows "parseAnkiCards (joinLines ls1 @ [LF, LF] @ joinLines ls2) =
           Inr ((let cd = foldl classifyLine emptyCard ls1
                 in if question cd \<noteq> [] \<and> answer cd \<noteq> [] then [cd] else []) @
                (let cd = foldl classifyLine emptyCard ls2
                 in if question cd \<noteq> [] \<and> answer cd \<noteq> [] then [cd] else []))"
  using assms(5) unfolding parseAnkiCards_def cardBlocks_two_blocks[OF assms(1-4)]
  by (simp add: parseBlock_joinLines[OF assms(1,2)] parseBlock_joinLines[OF assms(3,4)] Let_def)

lemma isLineTerminator_LF: "isLineTerminator LF"
  by (simp add: isLineTerminator_def LF_def)

lemma fieldText_no_LF: "fieldText x \<Longrightarrow> LF \<notin> set x"
  using isLineTerminator_LF by (auto simp: fieldText_def)

lemma goodLine_marker:
  assumes "fieldText x" and "\<not> isWhiteSpace a" and "a \<noteq> LF" and "LF \<notin> set p"
  shows "goodLine (a # p @ x)"
  using assms fieldText_no_LF[OF assms(1)]
  by (simp add: goodLine_def fieldText_def trim_append_fixed)

lemma goodLine_Q: "fieldText x \<Longrightarrow> goodLine (str ''Q: '' @ x)"
  using goodLine_marker[of x "0x51" "[0x3A, 0x20]"]
  by (simp add: str_def isWhiteSpace_def LF_def)

lemma goodLine_A: "fieldText x \<Longrightarrow> goodLine (str ''A: '' @ x)"
  using goodLine_marker[of x "0x41" "[0x3A, 0x20]"]
  by (simp add: str_def isWhiteSpace_def LF_def)

lemma isMultiLineFormat_QA:
  assumes "fieldText x"
  shows "isMultiLineFormat (str ''Q: '' @ x @ LF # str ''A: '' @ r)"
proof -
  have "\<forall>c\<in>set (0x20 # x). \<not> isLineTerminator c"
    using assms by (simp add: fieldText_def isLineTerminator_def)
  moreover have "str ''Q: '' @ x @ LF # str ''A: '' @ r
        = [] @ [0x51, 0x3A] @ (0x20 # x) @ [LF, 0x41, 0x3A] @ (0x20 # r)"
    by (simp add: str_def)
  ultimately have "\<exists>q m a r'. str ''Q: '' @ x @ LF # str ''A: '' @ r = [] @ [q, 0x3A] @ m @ [LF, a, 0x3A] @ r' \<and>
      (q = 0x51 \<or> q = 0x71) \<and> (a = 0x41 \<or> a = 0x61) \<and> (\<forall>c\<in>set m. \<not> isLineTerminator c)"
    by blast
  then have "ms multiLinePattern (length ([]::jsstring), str ''Q: '' @ x @ LF # str ''A: '' @ r, Map.empty) \<noteq> []"
    unfolding multiLinePattern_at by simp
  then show ?thesis
    unfolding isMultiLineFormat_def regexTest_iff by (metis append_Nil)
qed

lemma classify_Q:
  "fieldText x \<Longrightarrow> classifyLine cd (str ''Q: '' @ x) = cd\<lparr>question := x\<rparr>"
  by (simp add: classifyLine_def startsWith_def substring_def str_def fieldText_def
      trim_ws_Cons isWhiteSpace_def)

lemma classify_A:
  "fieldText y \<Longrightarrow> classifyLine cd (str ''A: '' @ y) = cd\<lparr>answer := y\<rparr>"
  by (simp add: classifyLine_def startsWith_def substring_def str_def fieldText_def
      trim_ws_Cons isWhiteSpace_def)

lemma block_QA:
  assumes "fieldText x" and "fieldText y"
  shows "foldl classifyLine emptyCard [str ''Q: '' @ x, str ''A: '' @ y]
           = \<lparr>question = x, answer = y, annotation = None, tags = None\<rparr>"
  using assms by (simp add: classify_Q classify_A emptyCard_def)

text \<open>
  Claim C6, as amended. For texts \<open>x\<close> and \<open>y\<close> that are non-empty, on one line (without a
  line terminator) and without blanks at their ends, the block \<^verbatim>\<open>Q: x\<close>, \<^verbatim>\<open>A: y\<close> is parsed
  into exactly one card with question \<open>x\<close> and answer \<open>y\<close>, and two such blocks with an
  empty line between them are parsed into their two cards, in the order of the blocks.
\<close>

theorem parse_well_formed_blocks:
  assumes "fieldText x" and "fieldText y" and "fieldText x'" and "fieldText y'"
  shows "parseAnkiCards (str ''Q: '' @ x @ [LF] @ str ''A: '' @ y)
           = Inr [\<lparr>question = x, answer = y, annotation = None, tags = None\<rparr>] \<and>
         parseAnkiCards (str ''Q: '' @ x @ [LF] @ str ''A: '' @ y @ [LF, LF] @
                         str ''Q: '' @ x' @ [LF] @ str ''A: '' @ y')
           = Inr [\<lparr>question = x, answer = y, annotation = None, tags = None\<rparr>,
                  \<lparr>question = x', answer = y', annotation = None, tags = None\<rparr>]"
proof
  let ?b1 = "[str ''Q: '' @ x, str ''A: '' @ y]"
  let ?b2 = "[str ''Q: '' @ x', str ''A: '' @ y']"
  have g1: "\<forall>l\<in>set ?b1. goodLine l" using assms by (simp add: goodLine_Q goodLine_A)
  have g2: "\<forall>l\<in>set ?b2. goodLine l" using assms by (simp add: goodLine_Q goodLine_A)
  have ne: "x \<noteq> []" "y \<noteq> []" "x' \<noteq> []" "y' \<noteq> []" using assms by (simp_all add: fieldText_def)
  have j1: "joinLines ?b1 = str ''Q: '' @ x @ [LF] @ str ''A: '' @ y" by simp
  have j2: "joinLines ?b1 @ [LF, LF] @ joinLines ?b2 =
            str ''Q: '' @ x @ [LF] @ str ''A: '' @ y @ [LF, LF] @ str ''Q: '' @ x' @ [LF] @ str ''A: '' @ y'"
    by simp
  have m1: "isMultiLineFormat (joinLines ?b1)"
    using isMultiLineFormat_QA[OF assms(1), of y] by simp
  have m2: "isMultiLineFormat (joinLines ?b1 @ [LF, LF] @ joinLines ?b2)"
    using isMultiLineFormat_QA[OF assms(1), of "y @ [LF, LF] @ joinLines ?b2"] by simp
  show "parseAnkiCards (str ''Q: '' @ x @ [LF] @ str ''A: '' @ y)
           = Inr [\<lparr>question = x, answer = y, annotation = None, tags = None\<rparr>]"
    using parse_one_block[OF _ g1 m1] ne unfolding j1 block_QA[OF assms(1,2)] by simp
  show "parseAnkiCards (str ''Q: '' @ x @ [LF] @ str ''A: '' @ y @ [LF, LF] @
                         str ''Q: '' @ x' @ [LF] @ str ''A: '' @ y')
           = Inr [\<lparr>question = x, answer = y, annotation = None, tags = None\<rparr>,
                  \<lparr>question = x', answer = y', annotation = None, tags = None\<rparr>]"
    using parse_two_blocks[OF _ g1 _ g2 m2] ne
    unfolding j2 block_QA[OF assms(1,2)] block_QA[OF assms(3,4)] by simp
qed

lemma fieldText_examples: "fieldText (str ''x'')" "fieldText (str ''y'')" "fieldText (str ''u'')" "fieldText (str ''v'')"
  by (simp_all add: fieldText_def trim_def char_defs)

theorem parse_well_formed_blocks_witness:
  "fieldText (str ''x'') \<and> fieldText (str ''y'') \<and> fieldText (str ''u'') \<and> fieldText (str ''v'') \<and>
   parseAnkiCards (str ''Q: '' @ str ''x'' @ [LF] @ str ''A: '' @ str ''y'')
     = Inr [\<lparr>question = str ''x'', answer = str ''y'', annotation = None, tags = None\<rparr>] \<and>
   parseAnkiCards (str ''Q: '' @ str ''x'' @ [LF] @ str ''A: '' @ str ''y'' @ [LF, LF] @
                   str ''Q: '' @ str ''u'' @ [LF] @ str ''A: '' @ str ''v'')
     = Inr [\<lparr>question = str ''x'', answer = str ''y'', annotation = None, tags = None\<rparr>,
            \<lparr>question = str ''u'', answer = str ''v'', annotation = None, tags = None\<rparr>]"
  using parse_well_formed_blocks[OF fieldText_examples] fieldText_examples by blast

theorem parse_padded_block_counterexample:
  "str '' x'' \<noteq> [] \<and> str '' '' \<noteq> [] \<and>
   parseAnkiCards (str ''Q: '' @ str '' x'' @ [LF] @ str ''A: '' @ str ''y'')
     = Inr [\<lparr>question = str ''x'', answer = str ''y'', annotation = None, tags = None\<rparr>] \<and>
   parseAnkiCards (str ''Q: '' @ str '' x'' @ [LF] @ str ''A: '' @ str ''y'')
     \<noteq> Inr [\<lparr>question = str '' x'', answer = str ''y'', annotation = None, tags = None\<rparr>] \<and>
   parseAnkiCards (str ''Q: '' @ str '' '' @ [LF] @ str ''A: '' @ str ''y'') = Inr []"
  by (simp add: eval_all)

section \<open>The two styles of tags\<close>

lemma goodLine_tags_examples:
  "goodLine (str ''tags: #a #b'')" "goodLine (str ''tags: a, b'')"
  by (simp_all add: goodLine_def trim_def char_defs)

lemma classify_tags_examples:
  "classifyLine cd (str ''tags: #a #b'') = cd\<lparr>tags := Some [str ''a'', str ''b'']\<rparr>"
  "classifyLine cd (str ''tags: a, b'') = cd\<lparr>tags := Some [str ''a'', str ''b'']\<rparr>"
  by (simp_all add: eval_all)

text \<open>
  Claim C9. In a block with the lines \<^verbatim>\<open>Q: x\<close> and \<^verbatim>\<open>A: y\<close> (\<open>x\<close> and \<open>y\<close> non-empty, on one
  line and without blanks at their ends), the tag line \<^verbatim>\<open>tags: #a #b\<close> and the tag line
  \<^verbatim>\<open>tags: a, b\<close> give the same card, whose tags are \<^verbatim>\<open>a\<close> and \<^verbatim>\<open>b\<close> in this order; and
  on any card under construction the two tag lines have the same effect.
\<close>

theorem parse_tag_styles:
  assumes "fieldText x" and "fieldText y"
  shows "parseAnkiCards (str ''Q: '' @ x @ [LF] @ str ''A: '' @ y @ [LF] @ str ''tags: #a #b'')
           = Inr [\<lparr>question = x, answer = y, annotation = None,
                    tags = Some [str ''a'', str ''b'']\<rparr>] \<and>
         parseAnkiCards (str ''Q: '' @ x @ [LF] @ str ''A: '' @ y @ [LF] @ str ''tags: a, b'')
           = Inr [\<lparr>question = x, answer = y, annotation = None,
                    tags = Some [str ''a'', str ''b'']\<rparr>] \<and>
         classifyLine cd (str ''tags: #a #b'') = cd\<lparr>tags := Some [str ''a'', str ''b'']\<rparr> \<and>
         classifyLine cd (str ''tags: a, b'') = cd\<lparr>tags := Some [str ''a'', str ''b'']\<rparr>"
proof (intro conjI)
  show "classifyLine cd (str ''tags: #a #b'') = cd\<lparr>tags := Some [str ''a'', str ''b'']\<rparr>"
    and "classifyLine cd (str ''tags: a, b'') = cd\<lparr>tags := Some [str ''a'', str ''b'']\<rparr>"
    by (rule classify_tags_examples)+
  have ne: "x \<noteq> []" "y \<noteq> []" using assms by (simp_all add: fieldText_def)
  show "parseAnkiCards (str ''Q: '' @ x @ [LF] @ str ''A: '' @ y @ [LF] @ str ''tags: #a #b'')
           = Inr [\<lparr>question = x, answer = y, annotation = None,
                    tags = Some [str ''a'', str ''b'']\<rparr>]"
  proof -
    let ?b = "[str ''Q: '' @ x, str ''A: '' @ y, str ''tags: #a #b'']"
    have g: "\<forall>l\<in>set ?b. goodLine l"
      using assms by (simp add: goodLine_Q goodLine_A goodLine_tags_examples)
    have j: "joinLines ?b = str ''Q: '' @ x @ [LF] @ str ''A: '' @ y @ [LF] @ str ''tags: #a #b''"
      by simp
    have m: "isMultiLineFormat (joinLines ?b)"
      using isMultiLineFormat_QA[OF assms(1), of "y @ [LF] @ str ''tags: #a #b''"] by simp
    have f: "foldl classifyLine emptyCard ?b
        = \<lparr>question = x, answer = y, annotation = None, tags = Some [str ''a'', str ''b'']\<rparr>"
      using assms by (simp add: classify_Q classify_A classify_tags_examples emptyCard_def)
    show ?thesis
      using parse_one_block[OF _ g m] ne unfolding j f by simp
  qed
  show "parseAnkiCards (str ''Q: '' @ x @ [LF] @ str ''A: '' @ y @ [LF] @ str ''tags: a, b'')
           = Inr [\<lparr>question = x, answer = y, annotation = None,
                    tags = Some [str ''a'', str ''b'']\<rparr>]"
  proof -
    let ?b = "[str ''Q: '' @ x, str ''A: '' @ y, str ''tags: a, b'']"
    have g: "\<forall>l\<in>set ?b. goodLine l"
      using assms by (simp add: goodLine_Q goodLine_A goodLine_tags_examples)
    have j: "joinLines ?b = str ''Q: '' @ x @ [LF] @ str ''A: '' @ y @ [LF] @ str ''tags: a, b''"
      by simp
    have m: "isMultiLineFormat (joinLines ?b)"
      using isMultiLineFormat_QA[OF assms(1), of "y @ [LF] @ str ''tags: a, b''"] by simp
    have f: "foldl classifyLine emptyCard ?b
        = \<lparr>question = x, answer = y, annotation = None, tags = Some [str ''a'', str ''b'']\<rparr>"
      using assms by (simp add: classify_Q classify_A classify_tags_examples emptyCard_def)
    show ?thesis
      using parse_one_block[OF _ g m] ne unfolding j f by simp
  qed
qed

theorem parse_tag_styles_witness:
  "fieldText (str ''x'') \<and> fieldText (str ''y'') \<and>
   parseAnkiCards (str ''Q: '' @ str ''x'' @ [LF] @ str ''A: '' @ str ''y'' @ [LF] @ str ''tags: #a #b'')
     = Inr [\<lparr>question = str ''x'', answer = str ''y'', annotation = None,
              tags = Some [str ''a'', str ''b'']\<rparr>] \<and>
   parseAnkiCards (str ''Q: '' @ str ''x'' @ [LF] @ str ''A: '' @ str ''y'' @ [LF] @ str ''tags: a, b'')
     = Inr [\<lparr>question = str ''x'', answer = str ''y'', annotation = None,
              tags = Some [str ''a'', str ''b'']\<rparr>]"
  using parse_tag_styles[OF fieldText_examples(1,2)] fieldText_examples(1,2) by blast

section \<open>Totality, and texts without markers\<close>

lemma fallbackLine_total: "\<exists>r. fallbackLine l = Inr r"
  by (simp add: fallbackLine_def Let_def trimAt_def andThen_def split: option.splits)

lemma fallbackLoop_total: "\<exists>res. fallbackLoop ls cards = Inr res"
proof (induction ls arbitrary: cards)
  case Nil
  then show ?case by simp
next
  case (Cons l ls)
  obtain r where "fallbackLine l = Inr r" using fallbackLine_total by blast
  then show ?case using Cons by (simp add: andThen_def)
qed

lemma parseAnkiCards_total: "\<exists>cards. parseAnkiCards text = Inr cards"
proof (cases "isMultiLineFormat text \<or> textLines text = []")
  case True
  then show ?thesis by (auto simp: parseAnkiCards_def)
next
  case False
  then have "trimAt (textLines text) 0 = Inr (trim (textLines text ! 0))"
    by (simp add: trimAt_def)
  then show ?thesis
    using False tableLoop_total[of "drop 1 (textLines text)" "[]"]
      fallbackLoop_total[of "textLines text" "[]"]
    by (auto simp: parseAnkiCards_def Let_def andThen_def)
qed

lemma fallbackLoop_no_cards:
  "\<forall>l\<in>set ls. fallbackLine l = Inr None \<Longrightarrow> fallbackLoop ls cards = Inr cards"
  by (induction ls arbitrary: cards) (simp_all add: andThen_def)

lemma splitLit_sublist: "p \<in> set (splitLit sep acc s) \<Longrightarrow> sublist p (rev acc @ s)"
proof (induction sep acc s rule: splitLit.induct)
  case (1 sep acc)
  then show ?case by simp
next
  case (2 sep acc x xs)
  show ?case
  proof (cases "sep \<noteq> [] \<and> prefix sep (x # xs)")
    case True
    with 2(3) consider "p = rev acc" | "p \<in> set (splitLit sep [] (drop (length sep) (x # xs)))"
      by auto
    then show ?thesis
    proof cases
      case 1
      then show ?thesis by (simp add: sublist_appendI)
    next
      case 2
      with "2.IH"(1)[OF True] have "sublist p (drop (length sep) (x # xs))" by simp
      moreover have "sublist (drop (length sep) (x # xs)) (x # xs)" by (rule sublist_drop)
      ultimately have "sublist p (x # xs)" by (rule sublist_order.order_trans)
      moreover have "sublist (x # xs) (rev acc @ x # xs)" by (rule sublist_append_leftI)
      ultimately show ?thesis by (rule sublist_order.order_trans)
    qed
  next
    case False
    with 2(3) have "p \<in> set (splitLit sep (x # acc) xs)" by auto
    with "2.IH"(2)[OF False] show ?thesis by simp
  qed
qed

lemma split_line_sublist: "l \<in> set (split text [LF]) \<Longrightarrow> sublist l text"
  using splitLit_sublist[of l "[LF]" "[]" "text"] by (simp add: split_def)

lemma splitLit_no_separator:
  "\<not> sublist sep s \<Longrightarrow> splitLit sep acc s = [rev acc @ s]"
proof (induction s arbitrary: acc)
  case Nil
  then show ?case by simp
next
  case (Cons x xs)
  have "\<not> prefix sep (x # xs)" using Cons.prems by (auto dest: prefix_imp_sublist)
  moreover have "\<not> sublist sep xs" using Cons.prems by (simp add: sublist_Cons_right)
  ultimately show ?case using Cons.IH by simp
qed

lemma qaPattern_needs_marker:
  assumes "ms qaPattern (i, t, c) \<noteq> []"
  shows "\<exists>q r. t = [q, 0x3A] @ r \<and> (q = 0x51 \<or> q = 0x71)"
proof -
  obtain rest where "qaPattern = Seq (liti [0x51, 0x3A]) rest"
    by (simp add: qaPattern_def seqs_def str_def)
  with assms have "ms (Seq (liti [0x51, 0x3A]) rest) (i, t, c) \<noteq> []" by simp
  then show ?thesis
    by (auto simp: ms_Seq_liti2 canonicalize_lits)
qed

lemma multiLinePattern_needs_marker:
  assumes "ms multiLinePattern (i, t, c) \<noteq> []"
  shows "\<exists>q r. t = [q, 0x3A] @ r \<and> (q = 0x51 \<or> q = 0x71)"
  using assms unfolding multiLinePattern_at by auto

lemma no_marker_no_start:
  assumes "\<not> sublist (str ''Q:'') s" and "\<not> sublist (str ''q:'') s" and "s = p @ t"
  shows "\<not> (\<exists>q r. t = [q, 0x3A] @ r \<and> (q = 0x51 \<or> q = 0x71))"
proof
  assume "\<exists>q r. t = [q, 0x3A] @ r \<and> (q = 0x51 \<or> q = 0x71)"
  then obtain q r where "s = p @ [q, 0x3A] @ r" "q = 0x51 \<or> q = 0x71" using assms(3) by auto
  then have "sublist (str ''Q:'') s \<or> sublist (str ''q:'') s"
    unfolding sublist_def by (auto simp: str_def)
  with assms(1,2) show False by blast
qed

lemma no_marker_not_multiLine:
  assumes "\<not> sublist (str ''Q:'') s" and "\<not> sublist (str ''q:'') s"
  shows "\<not> isMultiLineFormat s"
proof
  assume "isMultiLineFormat s"
  then obtain p t where pt: "s = p @ t" and m: "ms multiLinePattern (length p, t, Map.empty) \<noteq> []"
    unfolding isMultiLineFormat_def regexTest_iff by blast
  from m have "\<exists>q r. t = [q, 0x3A] @ r \<and> (q = 0x51 \<or> q = 0x71)"
    by (rule multiLinePattern_needs_marker)
  with no_marker_no_start[OF assms pt] show False by contradiction
qed

lemma no_marker_no_qaMatch:
  assumes "\<not> sublist (str ''Q:'') s" and "\<not> sublist (str ''q:'') s"
  shows "regexMatch qaPattern s = None"
  unfolding regexMatch_None_iff
proof (intro allI impI)
  fix p t
  assume pt: "s = p @ t"
  show "ms qaPattern (length p, t, Map.empty) = []"
  proof (rule ccontr)
    assume "ms qaPattern (length p, t, Map.empty) \<noteq> []"
    then have "\<exists>q r. t = [q, 0x3A] @ r \<and> (q = 0x51 \<or> q = 0x71)"
      by (rule qaPattern_needs_marker)
    with no_marker_no_start[OF assms pt] show False by contradiction
  qed
qed

lemma fallbackLine_no_marker:
  assumes "\<not> sublist (str ''Q:'') l" and "\<not> sublist (str ''q:'') l" and "\<not> sublist (str '':::'') l"
  shows "fallbackLine l = Inr None"
proof -
  have "split l (str '':::'') = [l]"
    using splitLit_no_separator[OF assms(3), of "[]"] by (simp add: split_def str_def)
  then show ?thesis
    by (simp add: fallbackLine_def no_marker_no_qaMatch[OF assms(1,2)])
qed

text \<open>
  Claim C7. \<open>parseAnkiCards\<close> returns a list of cards for every text: no access of the
  source to a missing element is ever reached. For a text that contains no \<^verbatim>\<open>Q:\<close> marker,
  in either case, and no \<^verbatim>\<open>:::\<close>, and whose first non-blank line is not a table header,
  the list is empty.
\<close>

theorem parse_never_raises:
  "(\<exists>cards. parseAnkiCards text = Inr cards) \<and>
   (\<not> sublist (str ''Q:'') text \<and> \<not> sublist (str ''q:'') text \<and>
    \<not> sublist (str '':::'') text \<and>
    (textLines text = [] \<or> \<not> isTableFormat (trim (hd (textLines text))))
    \<longrightarrow> parseAnkiCards text = Inr [])"
proof (intro conjI impI)
  show "\<exists>cards. parseAnkiCards text = Inr cards" by (rule parseAnkiCards_total)
next
  assume a: "\<not> sublist (str ''Q:'') text \<and> \<not> sublist (str ''q:'') text \<and>
    \<not> sublist (str '':::'') text \<and>
    (textLines text = [] \<or> \<not> isTableFormat (trim (hd (textLines text))))"
  then have nm: "\<not> isMultiLineFormat text" by (simp add: no_marker_not_multiLine)
  show "parseAnkiCards text = Inr []"
  proof (cases "textLines text = []")
    case True
    with nm show ?thesis by (simp add: parseAnkiCards_def)
  next
    case False
    with a have nt: "\<not> isTableFormat (trim (textLines text ! 0))"
      by (simp add: hd_conv_nth)
    have "fallbackLine l = Inr None" if "l \<in> set (textLines text)" for l
    proof -
      from that have "sublist l text" by (auto simp: textLines_def split_line_sublist)
      then have "sublist m l \<Longrightarrow> sublist m text" for m
        by (rule sublist_order.order_trans[rotated])
      with a have "\<not> sublist (str ''Q:'') l" "\<not> sublist (str ''q:'') l" "\<not> sublist (str '':::'') l"
        by blast+
      then show ?thesis by (rule fallbackLine_no_marker)
    qed
    then have "fallbackLoop (textLines text) [] = Inr []"
      by (intro fallbackLoop_no_cards) simp
    with nm nt False show ?thesis
      by (simp add: parseAnkiCards_def Let_def trimAt_def andThen_def)
  qed
qed

theorem parse_never_raises_witness:
  "\<not> sublist (str ''Q:'') (str ''hello world'') \<and> \<not> sublist (str ''q:'') (str ''hello world'') \<and>
   \<not> sublist (str '':::'') (str ''hello world'') \<and>
   \<not> isTableFormat (trim (hd (textLines (str ''hello world'')))) \<and>
   parseAnkiCards (str ''hello world'') = Inr []"
proof -
  have 1: "\<not> sublist (str ''Q:'') (str ''hello world'')"
    "\<not> sublist (str ''q:'') (str ''hello world'')"
    "\<not> sublist (str '':::'') (str ''hello world'')"
    by (simp_all add: str_def sublist_Cons_right)
  have 2: "\<not> isTableFormat (trim (hd (textLines (str ''hello world''))))"
    by (simp add: eval_all)
  from parse_never_raises[of "str ''hello world''"] 1 2
  have "parseAnkiCards (str ''hello world'') = Inr []" by blast
  with 1 2 show ?thesis by blast
qed

end
